theory Spec2Isabelle
  imports Main "HOL-Library.Word"
begin

section \<open>Status values and their wire form\<close>

text \<open>
  Modelled from the spec: the class \<^verbatim>\<open>Status\<close> (\<^verbatim>\<open>util/status.h\<close>) is not among the sources.
  Its kinds are those that \<^verbatim>\<open>wire_protocol.cc\<close> names: one per \<^verbatim>\<open>Status::IsX()\<close> test of
  \<^verbatim>\<open>StatusToPB\<close> and per \<^verbatim>\<open>Status::X(...)\<close> factory of \<^verbatim>\<open>StatusFromPB\<close>; they are the kinds
  of the wire enum of section 6 of the spec, but for \<open>UNKNOWN_ERROR\<close>.
\<close>

datatype Code =
    kOk | kNotFound | kCorruption | kNotSupported | kInvalidArgument
  | kIOError | kAlreadyPresent | kRuntimeError | kNetworkError

text \<open>
  A status: its kind, its message (what \<^verbatim>\<open>status.message()\<close> returns) and its posix
  code, where \<open>-1\<close> means that there is none.
\<close>

record Status =
  code :: Code
  message :: string
  posix_code :: int

text \<open>
  Modelled from the spec: the factories \<^verbatim>\<open>Status::X(msg, msg2, posix_code)\<close> are not among
  the sources, and the spec leaves the message's text to them. The tests fix it:
  \<^verbatim>\<open>Status::NotFound("foo", "bar")\<close> has the message \<^verbatim>\<open>"foo: bar"\<close>, and a status made of one
  message has that message. An OK status has no message and no posix code.
\<close>

definition Status_make :: "Code \<Rightarrow> string \<Rightarrow> string \<Rightarrow> int \<Rightarrow> Status" where
  "Status_make c msg msg2 pc =
     \<lparr>code = c, message = (if msg2 = [] then msg else msg @ '': '' @ msg2), posix_code = pc\<rparr>"

text \<open>Modelled from the spec: \<^verbatim>\<open>Status::OK()\<close>, with no message and no posix code.\<close>

definition Status_OK :: Status where
  "Status_OK = \<lparr>code = kOk, message = [], posix_code = -1\<rparr>"

text \<open>Modelled from the spec: \<^verbatim>\<open>Status::ok()\<close>.\<close>

definition ok :: "Status \<Rightarrow> bool" where
  "ok s = (code s = kOk)"

text \<open>The wire enum \<^verbatim>\<open>AppStatusPB::ErrorCode\<close>, as the two functions use it.\<close>

datatype ErrorCode =
    UNKNOWN_ERROR | OK | NOT_FOUND | CORRUPTION | NOT_SUPPORTED | INVALID_ARGUMENT
  | IO_ERROR | ALREADY_PRESENT | RUNTIME_ERROR | NETWORK_ERROR

text \<open>
  The message \<^verbatim>\<open>AppStatusPB\<close> (spec, section 6): a code, an optional message and an
  optional posix code.
\<close>

record AppStatusPB =
  pb_code :: ErrorCode
  pb_message :: "string option"
  pb_posix_code :: "int option"

text \<open>
  \<^verbatim>\<open>StatusToPB\<close>. The chain of \<^verbatim>\<open>IsX()\<close> tests is kept in the source's order; the last
  branch is the source's \<^verbatim>\<open>else\<close>, which sets \<^verbatim>\<open>is_unknown\<close>. \<^verbatim>\<open>Status::CodeAsString\<close> is
  not among the sources and is the parameter \<open>CodeAsString\<close>. The log line has no effect
  on the result.
\<close>

definition StatusToPB :: "(Code \<Rightarrow> string) \<Rightarrow> Status \<Rightarrow> AppStatusPB" where
  "StatusToPB CodeAsString status =
     (if ok status then \<lparr>pb_code = OK, pb_message = None, pb_posix_code = None\<rparr>
      else
        let (c, is_unknown) =
              (if code status = kNotFound then (NOT_FOUND, False)
               else if code status = kCorruption then (CORRUPTION, False)
               else if code status = kNotSupported then (NOT_SUPPORTED, False)
               else if code status = kInvalidArgument then (INVALID_ARGUMENT, False)
               else if code status = kIOError then (IO_ERROR, False)
               else if code status = kRuntimeError then (RUNTIME_ERROR, False)
               else if code status = kNetworkError then (NETWORK_ERROR, False)
               else (UNKNOWN_ERROR, True));
            m = (if is_unknown then CodeAsString (code status) @ '': '' @ message status
                 else message status)
        in \<lparr>pb_code = c, pb_message = Some m,
            pb_posix_code = (if posix_code status \<noteq> -1 then Some (posix_code status) else None)\<rparr>)"

text \<open>
  \<^verbatim>\<open>StatusFromPB\<close>. An unset \<^verbatim>\<open>message\<close> reads as the empty string, an unset
  \<^verbatim>\<open>posix_code\<close> as \<open>-1\<close>.
\<close>

definition StatusFromPB :: "AppStatusPB \<Rightarrow> Status" where
  "StatusFromPB pb =
     (let posix = (case pb_posix_code pb of Some p \<Rightarrow> p | None \<Rightarrow> -1);
          m = (case pb_message pb of Some s \<Rightarrow> s | None \<Rightarrow> [])
      in case pb_code pb of
           OK \<Rightarrow> Status_OK
         | NOT_FOUND \<Rightarrow> Status_make kNotFound m [] posix
         | CORRUPTION \<Rightarrow> Status_make kCorruption m [] posix
         | NOT_SUPPORTED \<Rightarrow> Status_make kNotSupported m [] posix
         | INVALID_ARGUMENT \<Rightarrow> Status_make kInvalidArgument m [] posix
         | IO_ERROR \<Rightarrow> Status_make kIOError m [] posix
         | ALREADY_PRESENT \<Rightarrow> Status_make kAlreadyPresent m [] posix
         | RUNTIME_ERROR \<Rightarrow> Status_make kRuntimeError m [] posix
         | NETWORK_ERROR \<Rightarrow> Status_make kNetworkError m [] posix
         | UNKNOWN_ERROR \<Rightarrow> Status_make kRuntimeError ''(unknown error code)'' m posix)"

section \<open>Schemas and their wire form\<close>

text \<open>
  Modelled from the spec: the type catalog (\<^verbatim>\<open>common/types.h\<close>) is not among the sources;
  the spec takes it as a fixed lookup table from a type to its byte width. The sources
  name \<^verbatim>\<open>STRING\<close> and \<^verbatim>\<open>UINT32\<close>; a \<^verbatim>\<open>STRING\<close> cell holds a reference descriptor of
  8 + 8 bytes (spec, section 6).
\<close>

datatype DataType =
    UINT8 | INT8 | UINT16 | INT16 | UINT32 | INT32 | UINT64 | INT64 | STRING

text \<open>
  Modelled from the spec: \<^verbatim>\<open>type_info().size()\<close>, the byte width of a type in a row slot:
  the width of the integer, and the 16 bytes of a reference descriptor for a string.
\<close>

fun type_size :: "DataType \<Rightarrow> nat" where
  "type_size UINT8 = 1"
| "type_size INT8 = 1"
| "type_size UINT16 = 2"
| "type_size INT16 = 2"
| "type_size UINT32 = 4"
| "type_size INT32 = 4"
| "type_size UINT64 = 8"
| "type_size INT64 = 8"
| "type_size STRING = 16"

text \<open>
  Modelled from the spec: \<^verbatim>\<open>ColumnSchema\<close> (\<^verbatim>\<open>common/schema.h\<close>) is not among the sources.
  Section 3 of the spec: a column descriptor is \<open>{name, type, nullable}\<close>.
\<close>

record ColumnSchema =
  name :: string
  type :: DataType
  is_nullable :: bool

text \<open>
  Modelled from the spec: \<^verbatim>\<open>Schema\<close> (\<^verbatim>\<open>common/schema.h\<close>) is not among the sources. Section 3
  of the spec: a table schema is \<open>{columns, num_key_columns}\<close>, the columns in order.
\<close>

record Schema =
  columns :: "ColumnSchema list"
  num_key_columns :: nat

text \<open>
  Modelled from the spec: the wire column \<^verbatim>\<open>ColumnSchemaPB\<close> is generated code that is not
  among the sources. Section 6 of the spec: \<open>{name, type, is_key, is_nullable}\<close>.
\<close>

record ColumnSchemaPB =
  pb_name :: string
  pb_type :: DataType
  pb_is_key :: bool
  pb_is_nullable :: bool

text \<open>Modelled from the spec: \<^verbatim>\<open>Schema::num_columns\<close> and \<^verbatim>\<open>Schema::column\<close>.\<close>

definition num_columns :: "Schema \<Rightarrow> nat" where
  "num_columns schema = length (columns schema)"

definition column :: "Schema \<Rightarrow> nat \<Rightarrow> ColumnSchema" where
  "column schema i = columns schema ! i"

text \<open>
  \<^verbatim>\<open>ColumnSchemaToPB\<close> sets three fields of the entry and leaves \<^verbatim>\<open>is_key\<close> as it is.
\<close>

definition ColumnSchemaToPB :: "ColumnSchema \<Rightarrow> ColumnSchemaPB \<Rightarrow> ColumnSchemaPB" where
  "ColumnSchemaToPB col_schema pb =
     pb\<lparr>pb_name := name col_schema, pb_type := type col_schema,
        pb_is_nullable := is_nullable col_schema\<rparr>"

definition ColumnSchemaFromPB :: "ColumnSchemaPB \<Rightarrow> ColumnSchema" where
  "ColumnSchemaFromPB pb = \<lparr>name = pb_name pb, type = pb_type pb, is_nullable = pb_is_nullable pb\<rparr>"

text \<open>
  Modelled from the spec: \<^verbatim>\<open>Schema::Reset\<close> (\<^verbatim>\<open>common/schema.h\<close>) is not among the
  sources. Section 4.2 of the spec: reject if \<open>num_key_columns > len(columns)\<close>; reject
  with an invalid-argument error whose message names the duplicate if two columns share
  a name; otherwise commit. Construction is all or nothing, so a rejected call leaves
  the schema it was called on as it was. The test expects the text
  \<^verbatim>\<open>Duplicate name present\<close> in the message; the duplicate named is the first name, in
  column order, that occurs again. The spec gives the first rejection neither a kind
  nor a text (\<^verbatim>\<open>ColumnPBsToSchema\<close> never reaches it). The result is the status and the
  schema after the call.
\<close>

fun first_duplicate :: "string list \<Rightarrow> string option" where
  "first_duplicate [] = None"
| "first_duplicate (x # xs) = (if x \<in> set xs then Some x else first_duplicate xs)"

text \<open>
  Modelled from the spec: \<^verbatim>\<open>Schema::Reset\<close>, the single validation gate of section 4.2, with
  its two rejections in the spec's order.
\<close>

definition Schema_Reset :: "ColumnSchema list \<Rightarrow> nat \<Rightarrow> Schema \<Rightarrow> Status \<times> Schema" where
  "Schema_Reset cols key_columns schema =
     (if length cols < key_columns then
        (Status_make kInvalidArgument ''Bad schema'' ''More key columns than columns'' (-1), schema)
      else case first_duplicate (map name cols) of
          Some n \<Rightarrow> (Status_make kInvalidArgument ''Duplicate name present in schema'' n (-1), schema)
        | None \<Rightarrow> (Status_OK, \<lparr>columns = cols, num_key_columns = key_columns\<rparr>))"

text \<open>
  The loop of \<^verbatim>\<open>ColumnPBsToSchema\<close> over the wire columns, with its three variables
  \<^verbatim>\<open>columns\<close>, \<^verbatim>\<open>num_key_columns\<close> and \<^verbatim>\<open>is_handling_key\<close>. It stops at the first key entry
  that follows a non-key entry, with the status the source returns there.
  \<^verbatim>\<open>ShortDebugString\<close> is generated protobuf code and is the parameter \<open>sds\<close>.
\<close>

fun key_loop :: "(ColumnSchemaPB \<Rightarrow> string) \<Rightarrow> ColumnSchemaPB list \<Rightarrow> ColumnSchema list \<Rightarrow> nat
    \<Rightarrow> bool \<Rightarrow> Status + (ColumnSchema list \<times> nat)" where
  "key_loop sds [] cols num_key is_handling_key = Inr (cols, num_key)"
| "key_loop sds (pb # pbs) cols num_key is_handling_key =
     (let cols' = cols @ [ColumnSchemaFromPB pb] in
      if pb_is_key pb then
        if \<not> is_handling_key then
          Inl (Status_make kInvalidArgument ''Got out-of-order key column'' (sds pb) (-1))
        else key_loop sds pbs cols' (num_key + 1) is_handling_key
      else key_loop sds pbs cols' num_key False)"

text \<open>
  \<^verbatim>\<open>ColumnPBsToSchema\<close>: the status, and the schema behind the pointer after the call.
\<close>

definition ColumnPBsToSchema :: "(ColumnSchemaPB \<Rightarrow> string) \<Rightarrow> ColumnSchemaPB list \<Rightarrow> Schema
    \<Rightarrow> Status \<times> Schema" where
  "ColumnPBsToSchema sds column_pbs schema =
     (case key_loop sds column_pbs [] 0 True of
        Inl s \<Rightarrow> (s, schema)
      | Inr (cols, num_key) \<Rightarrow> Schema_Reset cols num_key schema)"

text \<open>
  \<^verbatim>\<open>SchemaToColumnPBs\<close>: \<^verbatim>\<open>cols->Clear()\<close>, then one entry per column, added as a default
  entry (\<^verbatim>\<open>cols->Add()\<close>) and filled in; \<open>idx\<close> counts the columns done.
\<close>

definition default_ColumnSchemaPB :: ColumnSchemaPB where
  "default_ColumnSchemaPB = \<lparr>pb_name = [], pb_type = UINT8, pb_is_key = False, pb_is_nullable = False\<rparr>"

fun to_pbs_loop :: "Schema \<Rightarrow> ColumnSchema list \<Rightarrow> nat \<Rightarrow> ColumnSchemaPB list \<Rightarrow> ColumnSchemaPB list" where
  "to_pbs_loop schema [] idx cols = cols"
| "to_pbs_loop schema (col # rest) idx cols =
     to_pbs_loop schema rest (idx + 1)
       (cols @ [(ColumnSchemaToPB col default_ColumnSchemaPB)\<lparr>pb_is_key := (idx < num_key_columns schema)\<rparr>])"

definition SchemaToColumnPBs :: "Schema \<Rightarrow> ColumnSchemaPB list \<Rightarrow> Status \<times> ColumnSchemaPB list" where
  "SchemaToColumnPBs schema cols = (Status_OK, to_pbs_loop schema (columns schema) 0 [])"

section \<open>Bytes, buffers and reference descriptors\<close>

type_synonym byte = "8 word"

text \<open>A \<^verbatim>\<open>size_t\<close>, a \<^verbatim>\<open>uintptr_t\<close> or a pointer of the host: 64 bits.\<close>

type_synonym addr = "64 word"

text \<open>
  The bytes \<open>[pos, pos + n)\<close> of a buffer, and the buffer with bytes written over
  from \<open>pos\<close> on (\<^verbatim>\<open>memset\<close>, or an assignment through a pointer into the buffer). A
  write through a pointer leaves the size of the buffer as it is.
\<close>

definition read_bytes :: "byte list \<Rightarrow> nat \<Rightarrow> nat \<Rightarrow> byte list" where
  "read_bytes buf pos n = take n (drop pos buf)"

definition write_bytes :: "byte list \<Rightarrow> nat \<Rightarrow> byte list \<Rightarrow> byte list" where
  "write_bytes buf pos bs = take (length buf) (take pos buf @ bs @ drop (pos + length bs) buf)"

text \<open>
  Host memory outside the block's two buffers (the caller's rows and their string
  payloads) is a function from addresses to bytes; \<open>read_mem\<close> reads \<open>n\<close> bytes from an
  address on. \<open>place base buf mem\<close> is the memory in which the buffer \<open>buf\<close> lies at address
  \<open>base\<close>.
\<close>

fun read_mem :: "(addr \<Rightarrow> byte) \<Rightarrow> addr \<Rightarrow> nat \<Rightarrow> byte list" where
  "read_mem mem p 0 = []"
| "read_mem mem p (Suc n) = mem p # read_mem mem (p + 1) n"

definition place :: "addr \<Rightarrow> byte list \<Rightarrow> (addr \<Rightarrow> byte) \<Rightarrow> (addr \<Rightarrow> byte)" where
  "place base buf mem = (\<lambda>a. if unat (a - base) < length buf then buf ! unat (a - base) else mem a)"

text \<open>Unsigned integers in memory, least significant byte first (the host is x86-64).\<close>

fun le_bytes :: "nat \<Rightarrow> nat \<Rightarrow> byte list" where
  "le_bytes 0 v = []"
| "le_bytes (Suc n) v = of_nat (v mod 256) # le_bytes n (v div 256)"

fun le_value :: "byte list \<Rightarrow> nat" where
  "le_value [] = 0"
| "le_value (b # bs) = unat b + 256 * le_value bs"

definition store64 :: "addr \<Rightarrow> byte list" where
  "store64 w = le_bytes 8 (unat w)"

definition load64 :: "byte list \<Rightarrow> addr" where
  "load64 bs = of_nat (le_value bs)"

text \<open>
  Modelled from the spec: \<^verbatim>\<open>Slice\<close> (\<^verbatim>\<open>util/slice.h\<close>) is not among the sources. Section 6
  of the spec: a reference descriptor is 8 bytes of offset or address, then 8 bytes of
  length. The variable \<^verbatim>\<open>slice\<close> of the sources is \<open>slc\<close> here.
\<close>

record Slice =
  slice_data :: addr
  slice_size :: addr

text \<open>
  \<open>load_slice\<close> is what the sources read through \<^verbatim>\<open>reinterpret_cast<Slice *>(dst_cell)\<close>
  from the 16 bytes of a cell, \<open>store_slice\<close> the bytes that the assignment
  \<^verbatim>\<open>*slice = Slice(...)\<close> writes there.
\<close>

definition load_slice :: "byte list \<Rightarrow> Slice" where
  "load_slice bs = \<lparr>slice_data = load64 (take 8 bs), slice_size = load64 (take 8 (drop 8 bs))\<rparr>"

definition store_slice :: "Slice \<Rightarrow> byte list" where
  "store_slice s = store64 (slice_data s) @ store64 (slice_size s)"

text \<open>The bytes that a slice refers to in a memory.\<close>

definition slice_bytes :: "(addr \<Rightarrow> byte) \<Rightarrow> Slice \<Rightarrow> byte list" where
  "slice_bytes mem s = read_mem mem (slice_data s) (unat (slice_size s))"

text \<open>
  Modelled from the spec: \<^verbatim>\<open>AddWithOverflowCheck\<close> (\<^verbatim>\<open>util/safe_math.h\<close>) is not among
  the sources; the spec calls it overflow-checked addition. It returns the wrapped sum
  and sets the flag when the sum does not fit.
\<close>

definition AddWithOverflowCheck :: "addr \<Rightarrow> addr \<Rightarrow> addr \<times> bool" where
  "AddWithOverflowCheck a b = (a + b, 2 ^ 64 \<le> unat a + unat b)"

section \<open>Row layout\<close>

text \<open>
  \<^verbatim>\<open>ContiguousRowHelper\<close> and \<^verbatim>\<open>ContiguousRow\<close> (\<^verbatim>\<open>common/row.h\<close>) are not among the sources.
  Sections 3, 4.3 and 6 of the spec: a row slot is the null bitmap followed by the
  columns' slots in schema order, \<open>[null-bitmap bytes][column_0 slot][column_1 slot]...\<close>.
\<close>

text \<open>
  Modelled from the spec: the size of the null bitmap, "one null-bitmap byte-span sized
  to the count of nullable columns": one bit per nullable column, in whole bytes.
\<close>

definition null_bitmap_size :: "Schema \<Rightarrow> nat" where
  "null_bitmap_size schema = (length (filter is_nullable (columns schema)) + 7) div 8"

text \<open>
  Modelled from the spec: the byte offset of column \<open>i\<close>'s slot in a row, "the sum of
  preceding columns' storage widths plus the base offset past the null bitmap".
\<close>

definition column_offset :: "Schema \<Rightarrow> nat \<Rightarrow> nat" where
  "column_offset schema i =
     null_bitmap_size schema + sum_list (map (\<lambda>c. type_size (type c)) (take i (columns schema)))"

text \<open>
  Modelled from the spec: \<^verbatim>\<open>ContiguousRowHelper::row_size\<close>, the slot size: the "sum of
  per-column storage widths" plus the null bitmap.
\<close>

definition row_size :: "Schema \<Rightarrow> nat" where
  "row_size schema =
     null_bitmap_size schema + sum_list (map (\<lambda>c. type_size (type c)) (columns schema))"

text \<open>
  Modelled from the spec: the null-bitmap bit for column \<open>i\<close>, computed from the schema.
  The bitmap has one bit per nullable column, so the bit of a nullable column is its
  rank among the nullable columns.
\<close>

definition null_bit_index :: "Schema \<Rightarrow> nat \<Rightarrow> nat" where
  "null_bit_index schema i = length (filter is_nullable (take i (columns schema)))"

text \<open>
  Modelled from the spec: \<^verbatim>\<open>is_null(schema, i)\<close> of the row that starts at byte \<open>pos\<close> of
  \<open>buf\<close>, which "reads the corresponding bit from the null bitmap region": bit \<open>k\<close> of
  the bitmap is bit \<open>k mod 8\<close> of its byte \<open>k div 8\<close>.
\<close>

definition is_null :: "Schema \<Rightarrow> byte list \<Rightarrow> nat \<Rightarrow> nat \<Rightarrow> bool" where
  "is_null schema buf pos i =
     bit (buf ! (pos + null_bit_index schema i div 8)) (null_bit_index schema i mod 8)"

text \<open>
  The bytes of column \<open>i\<close>'s slot in the row at byte \<open>pos\<close> of \<open>buf\<close>: what is behind
  \<^verbatim>\<open>cell_ptr(schema, i)\<close>.
\<close>

definition cell_bytes :: "Schema \<Rightarrow> byte list \<Rightarrow> nat \<Rightarrow> nat \<Rightarrow> byte list" where
  "cell_bytes schema buf pos i =
     read_bytes buf (pos + column_offset schema i) (type_size (type (column schema i)))"

section \<open>Row blocks\<close>

text \<open>
  The message \<^verbatim>\<open>RowwiseRowBlockPB\<close> (spec, section 6): the row buffer and the indirect
  buffer, two byte strings.
\<close>

record RowwiseRowBlockPB =
  rows :: "byte list"
  indirect_data :: "byte list"

text \<open>A \<^verbatim>\<open>ConstContiguousRow\<close>: a schema and a pointer to the row's bytes in host memory.\<close>

record ConstContiguousRow =
  row_schema :: Schema
  row_data_ptr :: addr

text \<open>
  What the model has in place of a C++ exception or of undefined behaviour:
  \<^verbatim>\<open>std::string::at\<close> throws \<^verbatim>\<open>std::out_of_range\<close> for a position that is not below the
  size, and \<^verbatim>\<open>%\<close> by zero is undefined.
\<close>

datatype fault = out_of_range | division_by_zero

subsection \<open>\<^verbatim>\<open>StringPrintf\<close>\<close>

text \<open>A natural number in decimal digits.\<close>

function dec :: "nat \<Rightarrow> string" where
  "dec n = (if n < 10 then [''0123456789'' ! n] else dec (n div 10) @ [''0123456789'' ! (n mod 10)])"
  by pat_completeness auto
termination
  by (relation "measure (\<lambda>n. n)") auto

text \<open>
  \<^verbatim>\<open>%d\<close> of an \<^verbatim>\<open>int\<close> and \<^verbatim>\<open>%zd\<close> of a \<^verbatim>\<open>size_t\<close>: the value's low \<open>w\<close> bits, printed as
  a signed number.
\<close>

definition fmt_signed :: "nat \<Rightarrow> nat \<Rightarrow> string" where
  "fmt_signed w n =
     (let v = n mod 2 ^ w in if v < 2 ^ (w - 1) then dec v else CHR ''-'' # dec (2 ^ w - v))"

text \<open>
  \<^verbatim>\<open>%s\<close> of \<^verbatim>\<open>s.c_str()\<close>: the characters of \<open>s\<close> before its first NUL, all of them when
  it has none.
\<close>

definition c_str :: "string \<Rightarrow> string" where
  "c_str s = takeWhile (\<lambda>c. c \<noteq> CHR 0x00) s"

text \<open>The two messages that \<^verbatim>\<open>ExtractRowsFromRowBlockPB\<close> formats.\<close>

definition size_mismatch_message :: "nat \<Rightarrow> nat \<Rightarrow> string" where
  "size_mismatch_message n rs =
     ''Row block has '' @ fmt_signed 64 n @ '' bytes of data which is not a multiple of row size ''
       @ fmt_signed 64 rs"

definition bad_slice_message :: "(ColumnSchema \<Rightarrow> string) \<Rightarrow> nat \<Rightarrow> ColumnSchema \<Rightarrow> Slice \<Rightarrow> string" where
  "bad_slice_message ToString row_idx col slc =
     ''Row #'' @ fmt_signed 32 row_idx @ '' contained bad indirect slice for column ''
       @ c_str (ToString col)
       @ '': ('' @ fmt_signed 64 (unat (slice_data slc)) @ '', '' @ fmt_signed 64 (unat (slice_size slc)) @ '')''"

subsection \<open>\<^verbatim>\<open>ExtractRowsFromRowBlockPB\<close>\<close>

text \<open>
  The inner loop: column \<open>i\<close>, over the rows from byte \<open>offset\<close> on. The result is the
  status of an early return, if there is one, and the row buffer as the loop leaves it.
  \<open>indir_addr\<close> is the address of the indirect buffer's first byte, so that
  \<^verbatim>\<open>&indir_data[k]\<close> is \<open>indir_addr + k\<close>. \<^verbatim>\<open>ColumnSchema::ToString\<close> is not among the
  sources and is the parameter \<open>ToString\<close>. The loop is entered with a row size that
  is not zero (the modulus before it); the guard says so for the termination proof.
\<close>

function fixup_rows :: "Schema \<Rightarrow> (ColumnSchema \<Rightarrow> string) \<Rightarrow> addr \<Rightarrow> byte list \<Rightarrow> nat \<Rightarrow> nat \<Rightarrow> nat
    \<Rightarrow> byte list \<Rightarrow> Status option \<times> byte list" where
  "fixup_rows schema ToString indir_addr indir_data i offset row_idx row_data =
     (if offset < length row_data \<and> 0 < row_size schema then
        let col = column schema i;
            dst_cell = offset + column_offset schema i
        in if \<not> is_nullable col \<or> \<not> is_null schema row_data offset i then
             let slc = load_slice (read_bytes row_data dst_cell 16);
                 offset_in_indirect = slice_data slc;
                 (max_offset, overflowed) = AddWithOverflowCheck offset_in_indirect (slice_size slc)
             in if overflowed \<or> length indir_data < unat max_offset then
                  (Some (Status_make kCorruption (bad_slice_message ToString row_idx col slc) [] (-1)),
                   row_data)
                else fixup_rows schema ToString indir_addr indir_data i (offset + row_size schema)
                       (row_idx + 1)
                       (write_bytes row_data dst_cell
                          (store_slice \<lparr>slice_data = indir_addr + offset_in_indirect, slice_size = slice_size slc\<rparr>))
           else fixup_rows schema ToString indir_addr indir_data i (offset + row_size schema)
                  (row_idx + 1) row_data
      else (None, row_data))"
  by pat_completeness auto
termination
proof (relation "measure (\<lambda>(schema, ToString, indir_addr, indir_data, i, offset, row_idx, row_data).
    length row_data - offset)")
  show "wf (measure (\<lambda>(schema, ToString, indir_addr, indir_data, i, offset, row_idx, row_data).
    length row_data - offset))"
    by simp
qed (auto simp: write_bytes_def)

text \<open>The outer loop over the columns, from column \<open>i\<close> on.\<close>

function fixup_columns :: "Schema \<Rightarrow> (ColumnSchema \<Rightarrow> string) \<Rightarrow> addr \<Rightarrow> byte list \<Rightarrow> nat
    \<Rightarrow> byte list \<Rightarrow> Status option \<times> byte list" where
  "fixup_columns schema ToString indir_addr indir_data i row_data =
     (if i < num_columns schema then
        if type (column schema i) \<noteq> STRING then
          fixup_columns schema ToString indir_addr indir_data (i + 1) row_data
        else
          case fixup_rows schema ToString indir_addr indir_data i 0 0 row_data of
            (Some s, row_data') \<Rightarrow> (Some s, row_data')
          | (None, row_data') \<Rightarrow> fixup_columns schema ToString indir_addr indir_data (i + 1) row_data'
      else (None, row_data))"
  by pat_completeness auto
termination
  by (relation "measure (\<lambda>(schema, ToString, indir_addr, indir_data, i, row_data).
    num_columns schema - i)") auto

text \<open>
  The last loop: one pointer per row. A pointer \<^verbatim>\<open>&row_data->at(offset)\<close> into the row
  buffer is its byte offset \<open>offset\<close>.
\<close>

function push_rows :: "nat \<Rightarrow> nat \<Rightarrow> nat \<Rightarrow> nat list \<Rightarrow> nat list" where
  "push_rows rs n offset ptrs =
     (if offset < n \<and> 0 < rs then push_rows rs n (offset + rs) (ptrs @ [offset]) else ptrs)"
  by pat_completeness auto
termination
  by (relation "measure (\<lambda>(rs, n, offset, ptrs). n - offset)") auto

text \<open>
  \<^verbatim>\<open>ExtractRowsFromRowBlockPB\<close>: a fault, or the status returned, the block and the vector
  \<^verbatim>\<open>rows\<close> (here \<open>ptrs\<close>) after the call.
\<close>

definition ExtractRowsFromRowBlockPB :: "(ColumnSchema \<Rightarrow> string) \<Rightarrow> Schema \<Rightarrow> addr \<Rightarrow> RowwiseRowBlockPB
    \<Rightarrow> nat list \<Rightarrow> fault + (Status \<times> RowwiseRowBlockPB \<times> nat list)" where
  "ExtractRowsFromRowBlockPB ToString schema indir_addr rowblock_pb ptrs =
     (let row_data = rows rowblock_pb;
          indir_data = indirect_data rowblock_pb;
          rs = row_size schema
      in if rs = 0 then Inl division_by_zero
         else if length row_data mod rs \<noteq> 0 then
           Inr (Status_make kCorruption (size_mismatch_message (length row_data) rs) [] (-1),
                rowblock_pb, ptrs)
         else
           case fixup_columns schema ToString indir_addr indir_data 0 row_data of
             (Some s, row_data') \<Rightarrow> Inr (s, rowblock_pb\<lparr>rows := row_data'\<rparr>, ptrs)
           | (None, row_data') \<Rightarrow>
               Inr (Status_OK, rowblock_pb\<lparr>rows := row_data'\<rparr>,
                    push_rows rs (length row_data') 0 ptrs))"

subsection \<open>\<^verbatim>\<open>AddRowToRowBlockPB\<close>\<close>

text \<open>
  The body of the loop over the columns, for column \<open>i\<close>. \<open>src\<close> are the bytes of the
  source row, which nothing writes; \<open>appended_offset\<close> is where its copy starts in the
  row buffer. The last case is a column that the body leaves as it was copied.
\<close>

definition encode_column :: "(addr \<Rightarrow> byte) \<Rightarrow> Schema \<Rightarrow> byte list \<Rightarrow> nat \<Rightarrow> nat \<Rightarrow> RowwiseRowBlockPB
    \<Rightarrow> RowwiseRowBlockPB" where
  "encode_column mem schema src appended_offset i pb =
     (let col = column schema i;
          dst_cell = appended_offset + column_offset schema i
      in if is_nullable col \<and> is_null schema src 0 i then
           pb\<lparr>rows := write_bytes (rows pb) dst_cell (replicate (type_size (type col)) 0)\<rparr>
         else if type col = STRING then
           let slc = load_slice (read_bytes (rows pb) dst_cell 16);
               offset_in_indirect = length (indirect_data pb);
               pb1 = pb\<lparr>indirect_data := indirect_data pb @ slice_bytes mem slc\<rparr>
           in pb1\<lparr>rows := write_bytes (rows pb1) dst_cell
                 (store_slice \<lparr>slice_data = of_nat offset_in_indirect, slice_size = slice_size slc\<rparr>)\<rparr>
         else pb)"

text \<open>The loop, from column \<open>i\<close> on.\<close>

function encode_columns :: "(addr \<Rightarrow> byte) \<Rightarrow> Schema \<Rightarrow> byte list \<Rightarrow> nat \<Rightarrow> nat \<Rightarrow> RowwiseRowBlockPB
    \<Rightarrow> RowwiseRowBlockPB" where
  "encode_columns mem schema src appended_offset i pb =
     (if i < num_columns schema then
        encode_columns mem schema src appended_offset (i + 1)
          (encode_column mem schema src appended_offset i pb)
      else pb)"
  by pat_completeness auto
termination
  by (relation "measure (\<lambda>(mem, schema, src, appended_offset, i, pb). num_columns schema - i)") auto

text \<open>
  \<^verbatim>\<open>AddRowToRowBlockPB\<close>, in the host memory \<open>mem\<close>: a fault, or the block after the call.
\<close>

definition AddRowToRowBlockPB :: "(addr \<Rightarrow> byte) \<Rightarrow> ConstContiguousRow \<Rightarrow> RowwiseRowBlockPB
    \<Rightarrow> fault + RowwiseRowBlockPB" where
  "AddRowToRowBlockPB mem row pb =
     (let schema = row_schema row;
          appended_offset = length (rows pb);
          src = read_mem mem (row_data_ptr row) (row_size schema);
          data_buf = rows pb @ src
      in if length data_buf \<le> appended_offset then Inl out_of_range
         else Inr (encode_columns mem schema src appended_offset 0 (pb\<lparr>rows := data_buf\<rparr>)))"

text \<open>
  A block built as the round-trip test builds it: one \<^verbatim>\<open>AddRowToRowBlockPB\<close> per row, each
  row given by the host memory at the time of the call and the address of its bytes.
\<close>

fun add_rows :: "Schema \<Rightarrow> ((addr \<Rightarrow> byte) \<times> addr) list \<Rightarrow> RowwiseRowBlockPB \<Rightarrow> fault + RowwiseRowBlockPB" where
  "add_rows schema [] pb = Inr pb"
| "add_rows schema ((mem, p) # srcs) pb =
     (case AddRowToRowBlockPB mem \<lparr>row_schema = schema, row_data_ptr = p\<rparr> pb of
        Inl f \<Rightarrow> Inl f
      | Inr pb' \<Rightarrow> add_rows schema srcs pb')"


section \<open>The inputs of the tests\<close>

text \<open>The schema of \<^verbatim>\<open>TestSchemaRoundTrip\<close> and \<^verbatim>\<open>TestRowBlockRoundTrip\<close>.\<close>

definition test_schema :: Schema where
  "test_schema =
     \<lparr>columns = [\<lparr>name = ''col1'', type = STRING, is_nullable = False\<rparr>,
                 \<lparr>name = ''col2'', type = STRING, is_nullable = False\<rparr>,
                 \<lparr>name = ''col3'', type = UINT32, is_nullable = True\<rparr>],
      num_key_columns = 1\<rparr>"

text \<open>The wire columns of \<^verbatim>\<open>TestBadSchema_NonContiguousKey\<close>.\<close>

definition non_contiguous_key_pbs :: "ColumnSchemaPB list" where
  "non_contiguous_key_pbs =
     [\<lparr>pb_name = ''c0'', pb_type = STRING, pb_is_key = True, pb_is_nullable = False\<rparr>,
      \<lparr>pb_name = ''c1'', pb_type = STRING, pb_is_key = False, pb_is_nullable = False\<rparr>,
      \<lparr>pb_name = ''c2'', pb_type = STRING, pb_is_key = True, pb_is_nullable = False\<rparr>]"

text \<open>The wire columns of \<^verbatim>\<open>TestBadSchema_DuplicateColumnName\<close>.\<close>

definition duplicate_name_pbs :: "ColumnSchemaPB list" where
  "duplicate_name_pbs =
     [\<lparr>pb_name = ''c0'', pb_type = STRING, pb_is_key = True, pb_is_nullable = False\<rparr>,
      \<lparr>pb_name = ''c1'', pb_type = STRING, pb_is_key = False, pb_is_nullable = False\<rparr>,
      \<lparr>pb_name = ''c0'', pb_type = STRING, pb_is_key = False, pb_is_nullable = False\<rparr>]"

text \<open>The schema of \<^verbatim>\<open>TestInvalidRowBlock\<close>, and a default-constructed \<^verbatim>\<open>Schema\<close>.\<close>

definition string_schema :: Schema where
  "string_schema = \<lparr>columns = [\<lparr>name = ''col1'', type = STRING, is_nullable = False\<rparr>], num_key_columns = 1\<rparr>"

definition empty_schema :: Schema where
  "empty_schema = \<lparr>columns = [], num_key_columns = 0\<rparr>"

text \<open>A default-constructed \<^verbatim>\<open>RowwiseRowBlockPB\<close>.\<close>

definition empty_block :: RowwiseRowBlockPB where
  "empty_block = \<lparr>rows = [], indirect_data = []\<rparr>"

text \<open>
  A block of two rows of \<open>string_schema\<close>: the descriptor \<open>(0, 0)\<close>, and the descriptor
  \<open>(2\<^sup>6\<^sup>4 - 1, 1)\<close>, whose sum wraps around to zero.
\<close>

definition overflow_block :: RowwiseRowBlockPB where
  "overflow_block =
     \<lparr>rows = [0, 0, 0, 0, 0, 0, 0, 0, 0, 0, 0, 0, 0, 0, 0, 0,
              255, 255, 255, 255, 255, 255, 255, 255, 1, 0, 0, 0, 0, 0, 0, 0],
      indirect_data = [0]\<rparr>"

text \<open>
  A host memory with a row of \<open>test_schema\<close> at address \<open>0x100\<close>, as a \<^verbatim>\<open>RowBuilder\<close>
  lays it out: the null bitmap with the bit of \<open>col3\<close> set, the slices of \<open>col1\<close> (2 bytes
  at \<open>0x200\<close>) and \<open>col2\<close> (3 bytes at \<open>0x202\<close>), and 4 stale bytes in the slot of \<open>col3\<close>;
  the payloads \<open>"hi"\<close> and \<open>"abc"\<close> at \<open>0x200\<close>.
\<close>

definition test_memory :: "addr \<Rightarrow> byte" where
  "test_memory =
     place 0x100
       [1,
        0, 2, 0, 0, 0, 0, 0, 0, 2, 0, 0, 0, 0, 0, 0, 0,
        2, 2, 0, 0, 0, 0, 0, 0, 3, 0, 0, 0, 0, 0, 0, 0,
        7, 7, 7, 7]
       (place 0x200 [104, 105, 97, 98, 99] (\<lambda>a. 0))"

text \<open>That row, as the one row to append.\<close>

definition test_rows :: "((addr \<Rightarrow> byte) \<times> addr) list" where
  "test_rows = [(test_memory, 0x100)]"

text \<open>
  The block that \<^verbatim>\<open>AddRowToRowBlockPB\<close> makes of that row: the slot of \<open>col3\<close> is zeroed,
  the two slices are \<open>(0, 2)\<close> and \<open>(2, 3)\<close>, and the indirect buffer is \<open>"hiabc"\<close>.
\<close>

definition test_block :: RowwiseRowBlockPB where
  "test_block =
     \<lparr>rows = [1,
              0, 0, 0, 0, 0, 0, 0, 0, 2, 0, 0, 0, 0, 0, 0, 0,
              2, 0, 0, 0, 0, 0, 0, 0, 3, 0, 0, 0, 0, 0, 0, 0,
              0, 0, 0, 0],
      indirect_data = [104, 105, 97, 98, 99]\<rparr>"

section \<open>Notions of the statements\<close>

text \<open>
  Row \<open>r\<close> of a row buffer starts at byte \<open>r * row_size schema\<close>; \<open>cell_pos\<close> is where
  the slot of its column \<open>i\<close> starts, and \<open>in_cell\<close> says that byte \<open>q\<close> of the buffer
  lies in that slot.
\<close>

definition cell_pos :: "Schema \<Rightarrow> nat \<Rightarrow> nat \<Rightarrow> nat" where
  "cell_pos schema r i = r * row_size schema + column_offset schema i"

definition in_cell :: "Schema \<Rightarrow> nat \<Rightarrow> nat \<Rightarrow> nat \<Rightarrow> bool" where
  "in_cell schema r i q =
     (cell_pos schema r i \<le> q \<and> q < cell_pos schema r i + type_size (type (column schema i)))"

text \<open>
  The reference descriptor in the slot of column \<open>i\<close> of row \<open>r\<close>, and whether the row
  marks that column null (for a non-nullable column the bitmap is not consulted).
\<close>

definition slot_slice :: "Schema \<Rightarrow> byte list \<Rightarrow> nat \<Rightarrow> nat \<Rightarrow> Slice" where
  "slot_slice schema buf r i = load_slice (read_bytes buf (cell_pos schema r i) 16)"

definition slot_null :: "Schema \<Rightarrow> byte list \<Rightarrow> nat \<Rightarrow> nat \<Rightarrow> bool" where
  "slot_null schema buf r i =
     (is_nullable (column schema i) \<and> is_null schema buf (r * row_size schema) i)"

text \<open>
  A descriptor \<open>(offset, length)\<close> is bad for an indirect buffer when \<open>offset + length\<close>
  does not fit 64 bits or is beyond the buffer's length.
\<close>

definition bad_slice :: "byte list \<Rightarrow> Slice \<Rightarrow> bool" where
  "bad_slice indir s =
     (2 ^ 64 \<le> unat (slice_data s) + unat (slice_size s)
      \<or> length indir < unat (slice_data s) + unat (slice_size s))"

text \<open>The descriptor as the decoder rewrites it: a pointer into the indirect buffer.\<close>

definition materialize :: "addr \<Rightarrow> Slice \<Rightarrow> Slice" where
  "materialize indir_addr s = \<lparr>slice_data = indir_addr + slice_data s, slice_size = slice_size s\<rparr>"

text \<open>
  What the encoder leaves in the slot of column \<open>i\<close> of the copy at byte \<open>base\<close> of the
  row buffer \<open>buf\<close>, for the source row \<open>src\<close>: zeros for a null cell; for a string,
  a descriptor with the payload's length and an offset at which the indirect buffer
  holds the payload; the source's bytes otherwise.
\<close>

definition encoded :: "(addr \<Rightarrow> byte) \<Rightarrow> Schema \<Rightarrow> byte list \<Rightarrow> nat \<Rightarrow> byte list \<Rightarrow> nat \<Rightarrow> byte list
    \<Rightarrow> bool" where
  "encoded mem schema src i buf base indir =
     (if is_nullable (column schema i) \<and> is_null schema src 0 i then
        cell_bytes schema buf base i = replicate (type_size (type (column schema i))) 0
      else if type (column schema i) = STRING then
        (\<exists>off. off + unat (slice_size (load_slice (cell_bytes schema src 0 i))) \<le> length indir
           \<and> cell_bytes schema buf base i
               = store_slice \<lparr>slice_data = of_nat off,
                                slice_size = slice_size (load_slice (cell_bytes schema src 0 i))\<rparr>
           \<and> read_bytes indir off (unat (slice_size (load_slice (cell_bytes schema src 0 i))))
               = slice_bytes mem (load_slice (cell_bytes schema src 0 i)))
      else cell_bytes schema buf base i = cell_bytes schema src 0 i)"

text \<open>
  A block holds the rows \<open>srcs\<close> (each a host memory and the address of the row in it)
  when its row buffer has one slot per row, in order, with the row's null bitmap and
  with every column encoded.
\<close>

definition block_holds :: "Schema \<Rightarrow> ((addr \<Rightarrow> byte) \<times> addr) list \<Rightarrow> RowwiseRowBlockPB \<Rightarrow> bool" where
  "block_holds schema srcs pb =
     (length (rows pb) = length srcs * row_size schema \<and>
      (\<forall>r < length srcs.
         (\<forall>k < null_bitmap_size schema.
            rows pb ! (r * row_size schema + k)
              = read_mem (fst (srcs ! r)) (snd (srcs ! r)) (row_size schema) ! k)
         \<and> (\<forall>i < num_columns schema.
               encoded (fst (srcs ! r)) schema
                 (read_mem (fst (srcs ! r)) (snd (srcs ! r)) (row_size schema)) i
                 (rows pb) (r * row_size schema) (indirect_data pb))))"

text \<open>
  Column \<open>i\<close> of the row at byte \<open>pos\<close> of \<open>buf\<close>, read in the memory \<open>mem'\<close>, has the value
  that it has in the source row \<open>src\<close>, read in the memory \<open>mem\<close>: both null; or both not
  null and, for a string, the same bytes behind the two slices, for any other type the
  same bytes in the two slots.
\<close>

definition same_value :: "Schema \<Rightarrow> (addr \<Rightarrow> byte) \<Rightarrow> byte list \<Rightarrow> (addr \<Rightarrow> byte) \<Rightarrow> byte list \<Rightarrow> nat
    \<Rightarrow> nat \<Rightarrow> bool" where
  "same_value schema mem src mem' buf pos i =
     (if is_nullable (column schema i) \<and> is_null schema src 0 i then is_null schema buf pos i
      else (is_nullable (column schema i) \<longrightarrow> \<not> is_null schema buf pos i)
        \<and> (if type (column schema i) = STRING then
             slice_bytes mem' (load_slice (cell_bytes schema buf pos i))
               = slice_bytes mem (load_slice (cell_bytes schema src 0 i))
           else cell_bytes schema buf pos i = cell_bytes schema src 0 i))"

section \<open>Status and schema conversion\<close>

lemma to_pbs_loop_closed:
  "to_pbs_loop schema cs idx acc =
     acc @ map (\<lambda>(i, c). (ColumnSchemaToPB c default_ColumnSchemaPB)\<lparr>pb_is_key := (i < num_key_columns schema)\<rparr>)
             (enumerate idx cs)"
  by (induction cs arbitrary: idx acc) simp_all

lemma FromPB_ToPB [simp]:
  "ColumnSchemaFromPB ((ColumnSchemaToPB c pb)\<lparr>pb_is_key := b\<rparr>) = c"
  by (simp add: ColumnSchemaFromPB_def ColumnSchemaToPB_def)

lemma key_loop_nonkeys:
  "\<forall>p \<in> set pbs. \<not> pb_is_key p \<Longrightarrow>
   key_loop sds pbs cols k h = Inr (cols @ map ColumnSchemaFromPB pbs, k)"
  by (induction pbs arbitrary: cols h) simp_all

lemma key_loop_prefix:
  "\<forall>p \<in> set ks. pb_is_key p \<Longrightarrow> \<forall>p \<in> set ns. \<not> pb_is_key p \<Longrightarrow>
   key_loop sds (ks @ ns) cols k True = Inr (cols @ map ColumnSchemaFromPB (ks @ ns), k + length ks)"
  by (induction ks arbitrary: cols k) (simp_all add: key_loop_nonkeys)

lemma key_loop_after_nonkey:
  "\<forall>p \<in> set ns. \<not> pb_is_key p \<Longrightarrow> pb_is_key b \<Longrightarrow>
   key_loop sds (ns @ b # rest) cols k False =
     Inl (Status_make kInvalidArgument ''Got out-of-order key column'' (sds b) (-1))"
  by (induction ns arbitrary: cols) simp_all

lemma key_loop_out_of_order:
  "\<forall>p \<in> set ks. pb_is_key p \<Longrightarrow> \<not> pb_is_key a \<Longrightarrow> \<forall>p \<in> set ns. \<not> pb_is_key p \<Longrightarrow> pb_is_key b \<Longrightarrow>
   key_loop sds (ks @ a # ns @ b # rest) cols k True =
     Inl (Status_make kInvalidArgument ''Got out-of-order key column'' (sds b) (-1))"
  by (induction ks arbitrary: cols k) (simp_all add: key_loop_after_nonkey)

lemma out_of_order_split:
  assumes "i < j" "j < length pbs" "\<not> pb_is_key (pbs ! i)" "pb_is_key (pbs ! j)"
  shows "\<exists>ks a ns b rest. pbs = ks @ a # ns @ b # rest \<and> (\<forall>p \<in> set ks. pb_is_key p) \<and> \<not> pb_is_key a
     \<and> (\<forall>p \<in> set ns. \<not> pb_is_key p) \<and> pb_is_key b"
proof -
  let ?ks = "takeWhile pb_is_key pbs"
  let ?r = "dropWhile pb_is_key pbs"
  have i_in: "pbs ! i \<in> set pbs" using assms by simp
  have r_ne: "?r \<noteq> []" using i_in assms(3) by auto
  then obtain a tl where r: "?r = a # tl" by (cases ?r) auto
  have a: "\<not> pb_is_key a" using r by (metis hd_dropWhile list.sel(1) r_ne)
  have pbs: "pbs = ?ks @ a # tl" using r by (metis takeWhile_dropWhile_id)
  have len: "length ?ks \<le> i"
  proof (rule ccontr)
    assume "\<not> length ?ks \<le> i"
    then have "i < length ?ks" by simp
    then have "pb_is_key (pbs ! i)" by (metis nth_mem set_takeWhileD takeWhile_nth)
    with assms(3) show False by simp
  qed
  have "j - Suc (length ?ks) < length tl" using pbs assms len
  proof -
    have "length pbs = length ?ks + Suc (length tl)" by (subst pbs) simp
    with assms len show ?thesis by linarith
  qed
  moreover have "tl ! (j - Suc (length ?ks)) = pbs ! j"
  proof -
    have "pbs ! j = (?ks @ a # tl) ! j" using pbs by simp
    also have "\<dots> = (a # tl) ! (j - length ?ks)" using len assms(1) by (simp add: nth_append)
    also have "\<dots> = tl ! (j - Suc (length ?ks))" using len assms(1) by (simp add: nth_Cons')
    finally show ?thesis by simp
  qed
  ultimately have "\<exists>x \<in> set tl. pb_is_key x" using assms(4) by (metis nth_mem)
  then have d_ne: "dropWhile (\<lambda>p. \<not> pb_is_key p) tl \<noteq> []" by auto
  then obtain b rest where d: "dropWhile (\<lambda>p. \<not> pb_is_key p) tl = b # rest"
    by (cases "dropWhile (\<lambda>p. \<not> pb_is_key p) tl") auto
  have b: "pb_is_key b" using d d_ne by (metis hd_dropWhile list.sel(1))
  have tl: "tl = takeWhile (\<lambda>p. \<not> pb_is_key p) tl @ b # rest" using d by (metis takeWhile_dropWhile_id)
  have "pbs = ?ks @ a # takeWhile (\<lambda>p. \<not> pb_is_key p) tl @ b # rest" using pbs tl by simp
  moreover have "\<forall>p \<in> set ?ks. pb_is_key p" by (auto dest: set_takeWhileD)
  moreover have "\<forall>p \<in> set (takeWhile (\<lambda>p. \<not> pb_is_key p) tl). \<not> pb_is_key p" by (auto dest: set_takeWhileD)
  ultimately show ?thesis using a b by blast
qed

lemma first_duplicate_None: "first_duplicate xs = None \<longleftrightarrow> distinct xs"
  by (induction xs) auto

lemma first_duplicate_Some: "first_duplicate xs = Some n \<Longrightarrow> 1 < count_list xs n"
proof (induction xs)
  case Nil then show ?case by simp
next
  case (Cons x xs)
  show ?case
  proof (cases "x \<in> set xs")
    case True
    then have "count_list xs x \<noteq> 0" by (simp add: count_list_0_iff)
    then have "0 < count_list xs x" by simp
    with Cons.prems True show ?thesis by simp
  next
    case False
    with Cons show ?thesis by auto
  qed
qed


text \<open>
  C10. \<^verbatim>\<open>StatusToPB\<close> has no branch for an AlreadyPresent status: it is encoded as
  \<open>UNKNOWN_ERROR\<close>, with the name of its kind and \<open>": "\<close> before its message.
  \<^verbatim>\<open>StatusFromPB\<close> decodes the wire code \<open>ALREADY_PRESENT\<close> into an AlreadyPresent status,
  but what \<^verbatim>\<open>StatusToPB\<close> made of an AlreadyPresent status into a RuntimeError.
\<close>

theorem StatusToPB_AlreadyPresent:
 "pb_code (StatusToPB cas (Status_make kAlreadyPresent m m2 pc)) = UNKNOWN_ERROR
  \<and> pb_message (StatusToPB cas (Status_make kAlreadyPresent m m2 pc))
      = Some (cas kAlreadyPresent @ '': '' @ message (Status_make kAlreadyPresent m m2 pc))
  \<and> code (StatusFromPB (StatusToPB cas (Status_make kAlreadyPresent m m2 pc))) = kRuntimeError
  \<and> code (StatusFromPB \<lparr>pb_code = ALREADY_PRESENT, pb_message = pm, pb_posix_code = pp\<rparr>) = kAlreadyPresent"
  by (simp add: StatusToPB_def StatusFromPB_def Status_make_def ok_def)

text \<open>
  C4. A schema whose key count is at most its number of columns and whose column names
  are distinct is reproduced by \<^verbatim>\<open>SchemaToColumnPBs\<close> followed by \<^verbatim>\<open>ColumnPBsToSchema\<close>:
  both return OK, the schema decoded is the schema encoded (columns with their names,
  types and nullability, in order, and the key count), there is one wire column per
  column, and \<open>is_key\<close> is set exactly at the indices below \<open>num_key_columns\<close>.
\<close>

theorem schema_round_trip:
  assumes "num_key_columns schema \<le> length (columns schema)"
    and "distinct (map name (columns schema))"
  shows "fst (SchemaToColumnPBs schema old) = Status_OK
    \<and> ColumnPBsToSchema sds (snd (SchemaToColumnPBs schema old)) schema0 = (Status_OK, schema)
    \<and> length (snd (SchemaToColumnPBs schema old)) = length (columns schema)
    \<and> (\<forall>i < length (columns schema).
          pb_is_key (snd (SchemaToColumnPBs schema old) ! i) = (i < num_key_columns schema))"
proof -
  let ?cs = "columns schema" and ?nk = "num_key_columns schema"
  let ?f = "\<lambda>(i, c). (ColumnSchemaToPB c default_ColumnSchemaPB)\<lparr>pb_is_key := (i < ?nk)\<rparr>"
  let ?pbs = "snd (SchemaToColumnPBs schema old)"
  have pbs: "?pbs = map ?f (enumerate 0 ?cs)"
    by (simp add: SchemaToColumnPBs_def to_pbs_loop_closed)
  have len: "length ?pbs = length ?cs" by (simp add: pbs)
  have key: "\<forall>i < length ?cs. pb_is_key (?pbs ! i) = (i < ?nk)"
    by (simp add: pbs nth_enumerate_eq)
  have frompb: "map ColumnSchemaFromPB ?pbs = ?cs"
    by (rule nth_equalityI) (simp_all add: pbs nth_enumerate_eq)
  have split: "?pbs = take ?nk ?pbs @ drop ?nk ?pbs" by simp
  have k1: "\<forall>p \<in> set (take ?nk ?pbs). pb_is_key p"
  proof
    fix p assume "p \<in> set (take ?nk ?pbs)"
    then obtain i where "i < length (take ?nk ?pbs)" "p = take ?nk ?pbs ! i"
      by (metis in_set_conv_nth)
    then show "pb_is_key p" using key len by simp
  qed
  have k2: "\<forall>p \<in> set (drop ?nk ?pbs). \<not> pb_is_key p"
  proof
    fix p assume "p \<in> set (drop ?nk ?pbs)"
    then obtain i where "i < length (drop ?nk ?pbs)" "p = drop ?nk ?pbs ! i"
      by (metis in_set_conv_nth)
    then show "\<not> pb_is_key p" using key len by simp
  qed
  have "key_loop sds (take ?nk ?pbs @ drop ?nk ?pbs) [] 0 True
      = Inr ([] @ map ColumnSchemaFromPB (take ?nk ?pbs @ drop ?nk ?pbs), 0 + length (take ?nk ?pbs))"
    by (rule key_loop_prefix [OF k1 k2])
  then have loop: "key_loop sds ?pbs [] 0 True = Inr (?cs, ?nk)"
    using frompb len assms(1) by simp
  have "Schema_Reset ?cs ?nk schema0 = (Status_OK, schema)"
    using assms by (simp add: Schema_Reset_def first_duplicate_None [THEN iffD2])
  with loop have "ColumnPBsToSchema sds ?pbs schema0 = (Status_OK, schema)"
    by (simp add: ColumnPBsToSchema_def)
  moreover have "fst (SchemaToColumnPBs schema old) = Status_OK" by (simp add: SchemaToColumnPBs_def)
  ultimately show ?thesis using len key by blast
qed

theorem schema_round_trip_witness:
  "num_key_columns test_schema \<le> length (columns test_schema)
   \<and> distinct (map name (columns test_schema))
   \<and> fst (SchemaToColumnPBs test_schema []) = Status_OK
   \<and> ColumnPBsToSchema pb_name (snd (SchemaToColumnPBs test_schema [])) empty_schema = (Status_OK, test_schema)
   \<and> length (snd (SchemaToColumnPBs test_schema [])) = length (columns test_schema)
   \<and> pb_is_key (snd (SchemaToColumnPBs test_schema []) ! 0) = (0 < num_key_columns test_schema)
   \<and> pb_is_key (snd (SchemaToColumnPBs test_schema []) ! 2) = (2 < num_key_columns test_schema)"
proof -
  have h1: "num_key_columns test_schema \<le> length (columns test_schema)"
    by (simp add: test_schema_def)
  have h2: "distinct (map name (columns test_schema))"
    by (simp add: test_schema_def)
  have h3: "(0::nat) < length (columns test_schema)" "2 < length (columns test_schema)"
    by (simp_all add: test_schema_def)
  show ?thesis
    using schema_round_trip [OF h1 h2, of "[]" pb_name empty_schema] h1 h2 h3 by blast
qed

text \<open>
  C5. If a wire column with \<open>is_key\<close> set comes after one without, \<^verbatim>\<open>ColumnPBsToSchema\<close>
  returns an invalid-argument status whose message is "Got out-of-order key column"
  followed by the debug string of an offending column (a key column that comes after a
  non-key column), and the schema behind the pointer is as it was. If the key columns
  are a prefix \<open>ks\<close> of the list, the loop hands the columns and the key count
  \<open>length ks\<close> to \<^verbatim>\<open>Schema::Reset\<close>.
\<close>

theorem ColumnPBsToSchema_key_order:
  "(i < j \<and> j < length pbs \<and> \<not> pb_is_key (pbs ! i) \<and> pb_is_key (pbs ! j) \<longrightarrow>
      (\<exists>k < length pbs. pb_is_key (pbs ! k) \<and> (\<exists>i' < k. \<not> pb_is_key (pbs ! i'))
         \<and> ColumnPBsToSchema sds pbs schema
             = (Status_make kInvalidArgument ''Got out-of-order key column'' (sds (pbs ! k)) (-1), schema)))
   \<and> ((\<forall>p \<in> set ks. pb_is_key p) \<and> (\<forall>p \<in> set ns. \<not> pb_is_key p) \<longrightarrow>
      ColumnPBsToSchema sds (ks @ ns) schema
        = Schema_Reset (map ColumnSchemaFromPB (ks @ ns)) (length ks) schema)"
proof (intro conjI impI)
  assume "i < j \<and> j < length pbs \<and> \<not> pb_is_key (pbs ! i) \<and> pb_is_key (pbs ! j)"
  then obtain ks' a ns' b rest where
    pbs: "pbs = ks' @ a # ns' @ b # rest" and ks: "\<forall>p \<in> set ks'. pb_is_key p" and a: "\<not> pb_is_key a"
    and ns: "\<forall>p \<in> set ns'. \<not> pb_is_key p" and b: "pb_is_key b"
    using out_of_order_split [of i j pbs] by blast
  let ?k = "length ks' + Suc (length ns')"
  have k_lt: "?k < length pbs" by (simp add: pbs)
  have k_at: "pbs ! ?k = b"
  proof -
    have "pbs ! ?k = (a # ns' @ b # rest) ! Suc (length ns')" by (simp add: pbs nth_append)
    also have "\<dots> = b" by (simp add: nth_append)
    finally show ?thesis .
  qed
  have a_at: "pbs ! length ks' = a" by (simp add: pbs)
  have "key_loop sds pbs [] 0 True
      = Inl (Status_make kInvalidArgument ''Got out-of-order key column'' (sds b) (-1))"
    unfolding pbs by (rule key_loop_out_of_order [OF ks a ns b])
  then have "ColumnPBsToSchema sds pbs schema
      = (Status_make kInvalidArgument ''Got out-of-order key column'' (sds (pbs ! ?k)) (-1), schema)"
    unfolding k_at by (simp add: ColumnPBsToSchema_def)
  moreover have "\<exists>i' < ?k. \<not> pb_is_key (pbs ! i')"
    using a a_at by (intro exI [of _ "length ks'"]) simp
  ultimately show "\<exists>k < length pbs. pb_is_key (pbs ! k) \<and> (\<exists>i' < k. \<not> pb_is_key (pbs ! i'))
         \<and> ColumnPBsToSchema sds pbs schema
             = (Status_make kInvalidArgument ''Got out-of-order key column'' (sds (pbs ! k)) (-1), schema)"
    using k_lt k_at b by blast
next
  assume "(\<forall>p \<in> set ks. pb_is_key p) \<and> (\<forall>p \<in> set ns. \<not> pb_is_key p)"
  then have "key_loop sds (ks @ ns) [] 0 True = Inr ([] @ map ColumnSchemaFromPB (ks @ ns), 0 + length ks)"
    by (intro key_loop_prefix) simp_all
  then show "ColumnPBsToSchema sds (ks @ ns) schema
        = Schema_Reset (map ColumnSchemaFromPB (ks @ ns)) (length ks) schema"
    by (simp add: ColumnPBsToSchema_def)
qed

theorem ColumnPBsToSchema_key_order_witness:
  "(1::nat) < 2 \<and> 2 < length non_contiguous_key_pbs
   \<and> \<not> pb_is_key (non_contiguous_key_pbs ! 1) \<and> pb_is_key (non_contiguous_key_pbs ! 2)
   \<and> list_all pb_is_key (take 1 non_contiguous_key_pbs)
   \<and> list_all (\<lambda>p. \<not> pb_is_key p) (take 1 (drop 1 non_contiguous_key_pbs))
   \<and> (\<exists>k < length non_contiguous_key_pbs. pb_is_key (non_contiguous_key_pbs ! k)
         \<and> (\<exists>i' < k. \<not> pb_is_key (non_contiguous_key_pbs ! i'))
         \<and> ColumnPBsToSchema pb_name non_contiguous_key_pbs empty_schema
             = (Status_make kInvalidArgument ''Got out-of-order key column''
                  (pb_name (non_contiguous_key_pbs ! k)) (-1), empty_schema))
   \<and> ColumnPBsToSchema pb_name (take 1 non_contiguous_key_pbs @ take 1 (drop 1 non_contiguous_key_pbs)) empty_schema
       = Schema_Reset (map ColumnSchemaFromPB (take 1 non_contiguous_key_pbs @ take 1 (drop 1 non_contiguous_key_pbs)))
           (length (take 1 non_contiguous_key_pbs)) empty_schema"
proof -
  have h1: "(1::nat) < 2 \<and> 2 < length non_contiguous_key_pbs
      \<and> \<not> pb_is_key (non_contiguous_key_pbs ! 1) \<and> pb_is_key (non_contiguous_key_pbs ! 2)"
    by (simp add: non_contiguous_key_pbs_def)
  have h2: "(\<forall>p \<in> set (take 1 non_contiguous_key_pbs). pb_is_key p)
      \<and> (\<forall>p \<in> set (take 1 (drop 1 non_contiguous_key_pbs)). \<not> pb_is_key p)"
    by (simp add: non_contiguous_key_pbs_def)
  note inst = ColumnPBsToSchema_key_order [of 1 2 non_contiguous_key_pbs pb_name empty_schema
      "take 1 non_contiguous_key_pbs" "take 1 (drop 1 non_contiguous_key_pbs)"]
  from inst h1 have c1: "\<exists>k < length non_contiguous_key_pbs. pb_is_key (non_contiguous_key_pbs ! k)
         \<and> (\<exists>i' < k. \<not> pb_is_key (non_contiguous_key_pbs ! i'))
         \<and> ColumnPBsToSchema pb_name non_contiguous_key_pbs empty_schema
             = (Status_make kInvalidArgument ''Got out-of-order key column''
                  (pb_name (non_contiguous_key_pbs ! k)) (-1), empty_schema)"
    by blast
  from inst h2 have c2: "ColumnPBsToSchema pb_name (take 1 non_contiguous_key_pbs @ take 1 (drop 1 non_contiguous_key_pbs)) empty_schema
       = Schema_Reset (map ColumnSchemaFromPB (take 1 non_contiguous_key_pbs @ take 1 (drop 1 non_contiguous_key_pbs)))
           (length (take 1 non_contiguous_key_pbs)) empty_schema"
    by blast
  have h3: "list_all pb_is_key (take 1 non_contiguous_key_pbs)
      \<and> list_all (\<lambda>p. \<not> pb_is_key p) (take 1 (drop 1 non_contiguous_key_pbs))"
    using h2 by (simp add: list_all_iff)
  from h1 h3 c1 c2 show ?thesis by blast
qed

text \<open>
  C6. If the key columns are a prefix of the wire columns and two wire columns have the
  same name, \<^verbatim>\<open>ColumnPBsToSchema\<close> returns what the validation of \<^verbatim>\<open>Schema::Reset\<close> returns:
  an invalid-argument status whose message is "Duplicate name present in schema"
  followed by a name that occurs more than once, and the schema behind the pointer is
  as it was.
\<close>

theorem ColumnPBsToSchema_duplicate_name:
  assumes "\<forall>p \<in> set ks. pb_is_key p" and "\<forall>p \<in> set ns. \<not> pb_is_key p"
    and "i < j" and "j < length (ks @ ns)" and "pb_name ((ks @ ns) ! i) = pb_name ((ks @ ns) ! j)"
  shows "\<exists>n. 1 < count_list (map pb_name (ks @ ns)) n
    \<and> ColumnPBsToSchema sds (ks @ ns) schema
        = (Status_make kInvalidArgument ''Duplicate name present in schema'' n (-1), schema)"
proof -
  let ?pbs = "ks @ ns"
  let ?cols = "map ColumnSchemaFromPB ?pbs"
  have names: "map name ?cols = map pb_name ?pbs"
    by (rule nth_equalityI) (simp_all add: ColumnSchemaFromPB_def del: map_append)
  have "\<not> distinct (map pb_name ?pbs)"
  proof
    assume "distinct (map pb_name ?pbs)"
    moreover have "i < length (map pb_name ?pbs)" "j < length (map pb_name ?pbs)" using assms by simp_all
    moreover have "map pb_name ?pbs ! i = map pb_name ?pbs ! j" using assms by (simp del: map_append)
    ultimately have "i = j" by (simp only: nth_eq_iff_index_eq)
    with assms(3) show False by simp
  qed
  then obtain n where n: "first_duplicate (map pb_name ?pbs) = Some n"
    using first_duplicate_None [of "map pb_name ?pbs"] by (cases "first_duplicate (map pb_name ?pbs)") auto
  have cnt: "1 < count_list (map pb_name ?pbs) n" by (rule first_duplicate_Some [OF n])
  have "key_loop sds ?pbs [] 0 True = Inr ([] @ ?cols, 0 + length ks)"
    by (rule key_loop_prefix [OF assms(1,2)])
  then have "ColumnPBsToSchema sds ?pbs schema = Schema_Reset ?cols (length ks) schema"
    by (simp add: ColumnPBsToSchema_def)
  also have "\<dots> = (Status_make kInvalidArgument ''Duplicate name present in schema'' n (-1), schema)"
    unfolding Schema_Reset_def names n by simp
  finally show ?thesis using cnt by blast
qed

theorem ColumnPBsToSchema_duplicate_name_witness:
  "list_all pb_is_key (take 1 duplicate_name_pbs)
   \<and> list_all (\<lambda>p. \<not> pb_is_key p) (drop 1 duplicate_name_pbs)
   \<and> (0::nat) < 2 \<and> 2 < length (take 1 duplicate_name_pbs @ drop 1 duplicate_name_pbs)
   \<and> pb_name ((take 1 duplicate_name_pbs @ drop 1 duplicate_name_pbs) ! 0)
       = pb_name ((take 1 duplicate_name_pbs @ drop 1 duplicate_name_pbs) ! 2)
   \<and> (\<exists>n. 1 < count_list (map pb_name (take 1 duplicate_name_pbs @ drop 1 duplicate_name_pbs)) n
        \<and> ColumnPBsToSchema pb_name (take 1 duplicate_name_pbs @ drop 1 duplicate_name_pbs) empty_schema
            = (Status_make kInvalidArgument ''Duplicate name present in schema'' n (-1), empty_schema))"
proof -
  have h1: "\<forall>p \<in> set (take 1 duplicate_name_pbs). pb_is_key p"
    by (simp add: duplicate_name_pbs_def)
  have h2: "\<forall>p \<in> set (drop 1 duplicate_name_pbs). \<not> pb_is_key p"
    by (simp add: duplicate_name_pbs_def)
  have h3: "(0::nat) < 2" by simp
  have h4: "2 < length (take 1 duplicate_name_pbs @ drop 1 duplicate_name_pbs)"
    by (simp add: duplicate_name_pbs_def)
  have h5: "pb_name ((take 1 duplicate_name_pbs @ drop 1 duplicate_name_pbs) ! 0)
       = pb_name ((take 1 duplicate_name_pbs @ drop 1 duplicate_name_pbs) ! 2)"
    by (simp add: duplicate_name_pbs_def)
  have h6: "list_all pb_is_key (take 1 duplicate_name_pbs)
      \<and> list_all (\<lambda>p. \<not> pb_is_key p) (drop 1 duplicate_name_pbs)"
    using h1 h2 by (simp add: list_all_iff)
  from ColumnPBsToSchema_duplicate_name [OF h1 h2 h3 h4 h5, of pb_name empty_schema] h3 h4 h5 h6
  show ?thesis by blast
qed

section \<open>Buffers, integers and the row layout\<close>

subsection \<open>Buffers\<close>

lemma length_write_bytes [simp]: "length (write_bytes buf pos bs) = length buf"
  by (simp add: write_bytes_def)

lemma nth_write_bytes:
  assumes "q < length buf"
  shows "write_bytes buf pos bs ! q = (if pos \<le> q \<and> q < pos + length bs then bs ! (q - pos) else buf ! q)"
proof -
  have "write_bytes buf pos bs ! q = (take pos buf @ bs @ drop (pos + length bs) buf) ! q"
    unfolding write_bytes_def by (rule nth_take [OF assms])
  also have "\<dots> = (if pos \<le> q \<and> q < pos + length bs then bs ! (q - pos) else buf ! q)"
    using assms by (auto simp: nth_append min_def)
  finally show ?thesis .
qed

lemma length_read_bytes: "pos + n \<le> length buf \<Longrightarrow> length (read_bytes buf pos n) = n"
  by (simp add: read_bytes_def)

lemma nth_read_bytes: "k < n \<Longrightarrow> pos + n \<le> length buf \<Longrightarrow> read_bytes buf pos n ! k = buf ! (pos + k)"
  by (simp add: read_bytes_def)

lemma read_bytes_cong:
  assumes "pos + n \<le> length a" "length a = length b"
    and "\<And>q. pos \<le> q \<Longrightarrow> q < pos + n \<Longrightarrow> a ! q = b ! q"
  shows "read_bytes a pos n = read_bytes b pos n"
proof (rule nth_equalityI)
  show "length (read_bytes a pos n) = length (read_bytes b pos n)"
    using assms(1,2) by (simp add: length_read_bytes)
next
  fix k assume "k < length (read_bytes a pos n)"
  then have k: "k < n" using assms(1) by (simp add: length_read_bytes)
  then show "read_bytes a pos n ! k = read_bytes b pos n ! k"
    using assms by (simp add: nth_read_bytes)
qed

lemma read_bytes_eqI:
  assumes "pos + n \<le> length a" "pos + n \<le> length b"
    and "\<And>q. pos \<le> q \<Longrightarrow> q < pos + n \<Longrightarrow> a ! q = b ! q"
  shows "read_bytes a pos n = read_bytes b pos n"
proof (rule nth_equalityI)
  show "length (read_bytes a pos n) = length (read_bytes b pos n)"
    using assms(1,2) by (simp add: length_read_bytes)
next
  fix k assume "k < length (read_bytes a pos n)"
  then have k: "k < n" using assms(1) by (simp add: length_read_bytes)
  then show "read_bytes a pos n ! k = read_bytes b pos n ! k"
    using assms by (simp add: nth_read_bytes)
qed

lemma read_write_same:
  assumes "pos + length bs \<le> length buf"
  shows "read_bytes (write_bytes buf pos bs) pos (length bs) = bs"
proof (rule nth_equalityI)
  show "length (read_bytes (write_bytes buf pos bs) pos (length bs)) = length bs"
    using assms by (simp add: length_read_bytes)
next
  fix k assume "k < length (read_bytes (write_bytes buf pos bs) pos (length bs))"
  then have k: "k < length bs" using assms by (simp add: length_read_bytes)
  then show "read_bytes (write_bytes buf pos bs) pos (length bs) ! k = bs ! k"
    using assms by (simp add: nth_read_bytes nth_write_bytes)
qed

lemma read_bytes_append:
  "pos + n \<le> length a \<Longrightarrow> read_bytes (a @ b) pos n = read_bytes a pos n"
  by (simp add: read_bytes_def)

subsection \<open>Little-endian integers\<close>

lemma length_le_bytes [simp]: "length (le_bytes n v) = n"
  by (induction n arbitrary: v) simp_all

lemma le_value_le_bytes: "le_value (le_bytes n v) = v mod 256 ^ n"
proof (induction n arbitrary: v)
  case 0
  then show ?case by simp
next
  case (Suc n)
  have "unat (of_nat (v mod 256) :: byte) = v mod 256"
    by (simp add: unat_of_nat)
  then have "le_value (le_bytes (Suc n) v) = v mod 256 + 256 * (v div 256 mod 256 ^ n)"
    by (simp add: Suc.IH)
  also have "\<dots> = v mod (256 * 256 ^ n)"
    by (simp add: mod_mult2_eq)
  finally show ?case by simp
qed

lemma le_bytes_numeral:
  "le_bytes (numeral k) v = of_nat (v mod 256) # le_bytes (pred_numeral k) (v div 256)"
proof -
  have "numeral k = Suc (pred_numeral k)" by (rule numeral_eq_Suc)
  then show ?thesis by (simp only: le_bytes.simps)
qed

lemma length_store64 [simp]: "length (store64 w) = 8"
  by (simp add: store64_def)

lemma load64_store64 [simp]: "load64 (store64 w) = w"
proof -
  have "unat w < 2 ^ 64" using unsigned_less [of w, where 'a = nat] by simp
  then have "unat w mod 256 ^ 8 = unat w" by simp
  then show ?thesis by (simp add: load64_def store64_def le_value_le_bytes)
qed

lemma length_store_slice [simp]: "length (store_slice s) = 16"
  by (simp add: store_slice_def)

lemma load_slice_store_slice [simp]: "load_slice (store_slice s) = s"
  by (simp add: load_slice_def store_slice_def)

subsection \<open>Host memory\<close>

lemma length_read_mem [simp]: "length (read_mem mem p n) = n"
  by (induction n arbitrary: p) simp_all

lemma nth_read_mem: "k < n \<Longrightarrow> read_mem mem p n ! k = mem (p + of_nat k)"
proof (induction n arbitrary: p k)
  case 0
  then show ?case by simp
next
  case (Suc n)
  then show ?case by (cases k) (simp_all add: add.assoc)
qed

lemma read_mem_numeral:
  "read_mem mem p (numeral k) = mem p # read_mem mem (p + 1) (pred_numeral k)"
proof -
  have "numeral k = Suc (pred_numeral k)" by (rule numeral_eq_Suc)
  then show ?thesis by (simp only: read_mem.simps)
qed

lemma read_mem_place:
  assumes "off + n \<le> length buf" "length buf < 2 ^ 64"
  shows "read_mem (place base buf mem) (base + of_nat off) n = read_bytes buf off n"
proof (rule nth_equalityI)
  show "length (read_mem (place base buf mem) (base + of_nat off) n) = length (read_bytes buf off n)"
    using assms by (simp add: length_read_bytes)
next
  fix k assume "k < length (read_mem (place base buf mem) (base + of_nat off) n)"
  then have k: "k < n" by simp
  have "base + of_nat off + of_nat k - base = (of_nat (off + k) :: addr)" by simp
  moreover have "unat (of_nat (off + k) :: addr) = off + k"
    using k assms by (simp add: unat_of_nat del: of_nat_add)
  ultimately have "place base buf mem (base + of_nat off + of_nat k) = buf ! (off + k)"
    using k assms by (simp add: place_def)
  then show "read_mem (place base buf mem) (base + of_nat off) n ! k = read_bytes buf off n ! k"
    using k assms by (simp add: nth_read_mem nth_read_bytes)
qed

subsection \<open>Row layout\<close>

lemma type_size_pos [simp]: "0 < type_size t"
  by (cases t) simp_all

lemma column_offset_Suc:
  "i < num_columns schema \<Longrightarrow>
   column_offset schema (Suc i) = column_offset schema i + type_size (type (column schema i))"
  by (simp add: column_offset_def num_columns_def column_def take_Suc_conv_app_nth)

lemma column_offset_mono: "i \<le> j \<Longrightarrow> j \<le> num_columns schema \<Longrightarrow> column_offset schema i \<le> column_offset schema j"
proof (induction j)
  case 0
  then show ?case by simp
next
  case (Suc j)
  then show ?case by (cases "i = Suc j") (simp_all add: column_offset_Suc)
qed

lemma column_offset_all: "column_offset schema (num_columns schema) = row_size schema"
  by (simp add: column_offset_def row_size_def num_columns_def)

lemma cell_in_row:
  assumes "i < num_columns schema"
  shows "column_offset schema i + type_size (type (column schema i)) \<le> row_size schema"
proof -
  have "column_offset schema (Suc i) \<le> column_offset schema (num_columns schema)"
    using assms by (intro column_offset_mono) simp_all
  then show ?thesis using assms by (simp add: column_offset_Suc column_offset_all)
qed

lemma cells_ordered:
  assumes "i < j" "j < num_columns schema"
  shows "column_offset schema i + type_size (type (column schema i)) \<le> column_offset schema j"
proof -
  have "column_offset schema (Suc i) \<le> column_offset schema j"
    using assms by (intro column_offset_mono) simp_all
  then show ?thesis using assms by (simp add: column_offset_Suc)
qed

lemma null_bitmap_le_offset: "null_bitmap_size schema \<le> column_offset schema i"
  by (simp add: column_offset_def)

lemma null_bit_in_bitmap:
  assumes "i < num_columns schema" "is_nullable (column schema i)"
  shows "null_bit_index schema i div 8 < null_bitmap_size schema"
proof -
  let ?cs = "columns schema"
  have "?cs = take i ?cs @ ?cs ! i # drop (Suc i) ?cs"
    using assms(1) by (simp add: num_columns_def id_take_nth_drop)
  then have "filter is_nullable ?cs
      = filter is_nullable (take i ?cs) @ filter is_nullable (?cs ! i # drop (Suc i) ?cs)"
    by (metis filter_append)
  then have "length (filter is_nullable (take i ?cs)) < length (filter is_nullable ?cs)"
    using assms(2) by (simp add: column_def)
  then show ?thesis by (simp add: null_bit_index_def null_bitmap_size_def)
qed

lemma row_size_pos: "0 < num_columns schema \<Longrightarrow> 0 < row_size schema"
  using cell_in_row [of 0 schema] type_size_pos [of "type (column schema 0)"] by linarith

lemma row_size_zero_iff: "row_size schema = 0 \<longleftrightarrow> columns schema = []"
proof
  assume z: "row_size schema = 0"
  show "columns schema = []"
  proof (rule ccontr)
    assume "columns schema \<noteq> []"
    then have "0 < num_columns schema" by (simp add: num_columns_def)
    then have "0 < row_size schema" by (rule row_size_pos)
    with z show False by simp
  qed
next
  assume "columns schema = []"
  then show "row_size schema = 0" by (simp add: row_size_def null_bitmap_size_def)
qed

subsection \<open>Cells\<close>

lemma in_cell_row_bounds:
  assumes "i < num_columns schema" "in_cell schema r i q"
  shows "r * row_size schema + null_bitmap_size schema \<le> q" and "q < Suc r * row_size schema"
proof -
  have "null_bitmap_size schema \<le> column_offset schema i" by (rule null_bitmap_le_offset)
  then show "r * row_size schema + null_bitmap_size schema \<le> q"
    using assms(2) by (simp add: in_cell_def cell_pos_def)
  have "column_offset schema i + type_size (type (column schema i)) \<le> row_size schema"
    by (rule cell_in_row [OF assms(1)])
  then show "q < Suc r * row_size schema"
    using assms(2) by (simp add: in_cell_def cell_pos_def)
qed

lemma rows_disjoint:
  assumes "r * rs \<le> q" "q < Suc r * rs" "r' * rs \<le> q" "q < Suc r' * rs"
  shows "r = (r'::nat)"
proof (rule ccontr)
  assume "r \<noteq> r'"
  then consider "Suc r \<le> r'" | "Suc r' \<le> r" by linarith
  then show False
  proof cases
    case 1
    then have "Suc r * rs \<le> r' * rs" by (rule mult_le_mono1)
    with assms show False by linarith
  next
    case 2
    then have "Suc r' * rs \<le> r * rs" by (rule mult_le_mono1)
    with assms show False by linarith
  qed
qed

lemma in_cell_unique:
  assumes "i < num_columns schema" "i' < num_columns schema"
    and "in_cell schema r i q" "in_cell schema r' i' q"
  shows "r = r' \<and> i = i'"
proof -
  have b: "r * row_size schema \<le> q" "q < Suc r * row_size schema"
    using in_cell_row_bounds [OF assms(1,3)] by linarith+
  have b': "r' * row_size schema \<le> q" "q < Suc r' * row_size schema"
    using in_cell_row_bounds [OF assms(2,4)] by linarith+
  have r: "r = r'" by (rule rows_disjoint [OF b b'])
  have "i = i'"
  proof (rule ccontr)
    assume "i \<noteq> i'"
    then consider "i < i'" | "i' < i" by linarith
    then show False
    proof cases
      case 1
      from cells_ordered [OF 1 assms(2)] assms(3,4) r show False
        by (simp add: in_cell_def cell_pos_def)
    next
      case 2
      from cells_ordered [OF 2 assms(1)] assms(3,4) r show False
        by (simp add: in_cell_def cell_pos_def)
    qed
  qed
  with r show ?thesis by simp
qed

lemma cell_in_buffer:
  assumes "i < num_columns schema" "r < m" "length d = m * row_size schema"
  shows "cell_pos schema r i + type_size (type (column schema i)) \<le> length d"
proof -
  have "Suc r * row_size schema \<le> m * row_size schema"
    using assms(2) by (intro mult_le_mono1) simp
  moreover have "column_offset schema i + type_size (type (column schema i)) \<le> row_size schema"
    by (rule cell_in_row [OF assms(1)])
  ultimately show ?thesis using assms(3) by (simp add: cell_pos_def)
qed

lemma null_byte_not_in_cell:
  assumes "i < num_columns schema" "is_nullable (column schema i)" "i' < num_columns schema"
  shows "\<not> in_cell schema r' i' (r * row_size schema + null_bit_index schema i div 8)"
proof
  let ?q = "r * row_size schema + null_bit_index schema i div 8"
  assume c: "in_cell schema r' i' ?q"
  have lt: "null_bit_index schema i div 8 < null_bitmap_size schema"
    by (rule null_bit_in_bitmap [OF assms(1,2)])
  have "null_bitmap_size schema \<le> column_offset schema i'" by (rule null_bitmap_le_offset)
  also have "\<dots> \<le> row_size schema" using cell_in_row [OF assms(3)] by linarith
  finally have le: "null_bitmap_size schema \<le> row_size schema" .
  have b: "r' * row_size schema + null_bitmap_size schema \<le> ?q" "?q < Suc r' * row_size schema"
    by (rule in_cell_row_bounds [OF assms(3) c])+
  have "r = r'"
  proof (rule rows_disjoint)
    show "r * row_size schema \<le> ?q" by simp
    show "?q < Suc r * row_size schema" using lt le by simp
    show "r' * row_size schema \<le> ?q" using b(1) by linarith
    show "?q < Suc r' * row_size schema" by (rule b(2))
  qed
  with b(1) lt show False by simp
qed

text \<open>Buffers that agree outside the cells agree on the null bits; buffers that agree
  on a cell agree on its descriptor.\<close>

lemma slot_null_agree:
  assumes "i < num_columns schema" "r < m" "length d = m * row_size schema"
    and "\<And>q. q < length d \<Longrightarrow> (\<And>r' i'. i' < num_columns schema \<Longrightarrow> \<not> in_cell schema r' i' q)
          \<Longrightarrow> d' ! q = d ! q"
  shows "slot_null schema d' r i = slot_null schema d r i"
proof (cases "is_nullable (column schema i)")
  case True
  let ?q = "r * row_size schema + null_bit_index schema i div 8"
  have "null_bit_index schema i div 8 < null_bitmap_size schema"
    by (rule null_bit_in_bitmap [OF assms(1) True])
  also have "\<dots> \<le> column_offset schema i" by (rule null_bitmap_le_offset)
  also have "\<dots> \<le> row_size schema" using cell_in_row [OF assms(1)] by linarith
  finally have "?q < Suc r * row_size schema" by simp
  also have "\<dots> \<le> m * row_size schema" using assms(2) by (intro mult_le_mono1) simp
  finally have "?q < length d" using assms(3) by simp
  then have "d' ! ?q = d ! ?q"
    by (rule assms(4)) (rule null_byte_not_in_cell [OF assms(1) True])
  then show ?thesis by (simp add: slot_null_def is_null_def)
next
  case False
  then show ?thesis by (simp add: slot_null_def)
qed

lemma cell_agree:
  assumes "cell_pos schema r i + n \<le> length d" "length d' = length d"
    and "n \<le> type_size (type (column schema i))"
    and "\<And>q. q < length d \<Longrightarrow> in_cell schema r i q \<Longrightarrow> d' ! q = d ! q"
  shows "read_bytes d' (cell_pos schema r i) n = read_bytes d (cell_pos schema r i) n"
proof (rule read_bytes_cong)
  show "cell_pos schema r i + n \<le> length d'" using assms(1,2) by simp
  show "length d' = length d" by (rule assms(2))
  fix q assume q: "cell_pos schema r i \<le> q" "q < cell_pos schema r i + n"
  then have "in_cell schema r i q" using assms(3) by (simp add: in_cell_def)
  moreover have "q < length d" using q assms(1) by simp
  ultimately show "d' ! q = d ! q" by (rule assms(4) [rotated])
qed

lemma slot_slice_agree:
  assumes "i < num_columns schema" "type (column schema i) = STRING" "r < m"
    and "length d = m * row_size schema" "length d' = length d"
    and "\<And>q. q < length d \<Longrightarrow> in_cell schema r i q \<Longrightarrow> d' ! q = d ! q"
  shows "slot_slice schema d' r i = slot_slice schema d r i"
proof -
  have "cell_pos schema r i + 16 \<le> length d"
    using cell_in_buffer [OF assms(1,3,4)] assms(2) by simp
  then have "read_bytes d' (cell_pos schema r i) 16 = read_bytes d (cell_pos schema r i) 16"
    using assms(2,5,6) by (intro cell_agree) simp_all
  then show ?thesis by (simp add: slot_slice_def)
qed

lemma bad_slice_check:
  "(snd (AddWithOverflowCheck (slice_data s) (slice_size s))
      \<or> length indir < unat (fst (AddWithOverflowCheck (slice_data s) (slice_size s))))
   = bad_slice indir s"
proof (cases "2 ^ 64 \<le> unat (slice_data s) + unat (slice_size s)")
  case True
  then show ?thesis by (simp add: AddWithOverflowCheck_def bad_slice_def)
next
  case False
  then have "unat (slice_data s + slice_size s) = unat (slice_data s) + unat (slice_size s)"
    by (simp add: unat_add_lem [THEN iffD1])
  with False show ?thesis by (simp add: AddWithOverflowCheck_def bad_slice_def)
qed


section \<open>The decoder\<close>

declare fixup_rows.simps [simp del] fixup_columns.simps [simp del] push_rows.simps [simp del]
  encode_columns.simps [simp del] dec.simps [simp del]

lemma fixup_rows_done:
  "length d \<le> offset \<Longrightarrow> fixup_rows schema ts a ind i offset j d = (None, d)"
  by (subst fixup_rows.simps) simp

lemma fixup_rows_step:
  assumes "0 < row_size schema" "j * row_size schema < length d"
  shows "fixup_rows schema ts a ind i (j * row_size schema) j d =
    (if slot_null schema d j i then
       fixup_rows schema ts a ind i (Suc j * row_size schema) (Suc j) d
     else if bad_slice ind (slot_slice schema d j i) then
       (Some (Status_make kCorruption
                (bad_slice_message ts j (column schema i) (slot_slice schema d j i)) [] (-1)), d)
     else fixup_rows schema ts a ind i (Suc j * row_size schema) (Suc j)
            (write_bytes d (cell_pos schema j i) (store_slice (materialize a (slot_slice schema d j i)))))"
  using assms
  by (subst fixup_rows.simps)
     (simp add: Let_def split_def bad_slice_check slot_null_def slot_slice_def cell_pos_def
        materialize_def add.commute)


text \<open>What one write of the row loop changes, and what it leaves.\<close>

lemma fixup_write:
  assumes i: "i < num_columns schema" and str: "type (column schema i) = STRING"
    and len: "length d = m * row_size schema" and j: "j < m"
    and d1: "d1 = write_bytes d (cell_pos schema j i) (store_slice s)"
  shows "length d1 = length d"
    and "\<And>q. q < length d \<Longrightarrow> \<not> in_cell schema j i q \<Longrightarrow> d1 ! q = d ! q"
    and "read_bytes d1 (cell_pos schema j i) 16 = store_slice s"
    and "\<And>r i'. i' < num_columns schema \<Longrightarrow> r < m \<Longrightarrow> slot_null schema d1 r i' = slot_null schema d r i'"
    and "\<And>r i'. i' < num_columns schema \<Longrightarrow> type (column schema i') = STRING \<Longrightarrow> r < m
           \<Longrightarrow> r \<noteq> j \<or> i' \<noteq> i \<Longrightarrow> slot_slice schema d1 r i' = slot_slice schema d r i'"
proof -
  show l1: "length d1 = length d" by (simp add: d1)
  show frame: "d1 ! q = d ! q" if "q < length d" "\<not> in_cell schema j i q" for q
    using that by (auto simp: d1 nth_write_bytes in_cell_def str)
  have "cell_pos schema j i + 16 \<le> length d"
    using cell_in_buffer [OF i j len] str by simp
  then have "cell_pos schema j i + length (store_slice s) \<le> length d" by simp
  from read_write_same [OF this] show "read_bytes d1 (cell_pos schema j i) 16 = store_slice s"
    by (simp add: d1)
  show "slot_null schema d1 r i' = slot_null schema d r i'" if "i' < num_columns schema" "r < m" for r i'
    by (rule slot_null_agree [OF that len]) (rule frame, simp_all add: i)
  show "slot_slice schema d1 r i' = slot_slice schema d r i'"
    if "i' < num_columns schema" "type (column schema i') = STRING" "r < m" "r \<noteq> j \<or> i' \<noteq> i" for r i'
  proof (rule slot_slice_agree [OF that(1,2,3) len l1])
    fix q assume q: "q < length d" "in_cell schema r i' q"
    have "\<not> in_cell schema j i q"
      using in_cell_unique [OF that(1) i q(2)] that(4) by blast
    with q(1) show "d1 ! q = d ! q" by (rule frame)
  qed
qed

lemma fixup_rows_spec:
  assumes rs: "0 < row_size schema" and i: "i < num_columns schema"
    and str: "type (column schema i) = STRING"
    and len: "length d = m * row_size schema" and j: "j \<le> m"
    and run: "fixup_rows schema ts a ind i (j * row_size schema) j d = (res, d')"
  shows "length d' = length d \<and>
    (case res of
       Some st \<Rightarrow>
         \<exists>r. j \<le> r \<and> r < m \<and> \<not> slot_null schema d r i \<and> bad_slice ind (slot_slice schema d r i)
           \<and> st = Status_make kCorruption
                 (bad_slice_message ts r (column schema i) (slot_slice schema d r i)) [] (-1)
     | None \<Rightarrow>
         (\<forall>q < length d. (\<forall>r. j \<le> r \<and> r < m \<and> \<not> slot_null schema d r i \<longrightarrow> \<not> in_cell schema r i q)
            \<longrightarrow> d' ! q = d ! q)
         \<and> (\<forall>r. j \<le> r \<and> r < m \<and> \<not> slot_null schema d r i \<longrightarrow>
               \<not> bad_slice ind (slot_slice schema d r i)
               \<and> read_bytes d' (cell_pos schema r i) 16
                   = store_slice (materialize a (slot_slice schema d r i))))"
  using len j run
proof (induction "m - j" arbitrary: j d res d')
  case 0
  then have "length d \<le> j * row_size schema" by simp
  from fixup_rows_done [OF this] "0.prems"(3) have "res = None" "d' = d" by simp_all
  with 0 show ?case by auto
next
  case (Suc k)
  note len = Suc.prems(1) and run = Suc.prems(3)
  from Suc.hyps(2) have jm: "j < m" by simp
  then have "Suc j * row_size schema \<le> m * row_size schema" by (intro mult_le_mono1) simp
  then have "j * row_size schema + row_size schema \<le> length d" using len by simp
  then have jlt: "j * row_size schema < length d" using rs by linarith
  have k: "k = m - Suc j" and sj: "Suc j \<le> m" using Suc.hyps(2) by simp_all
  note step = fixup_rows_step [OF rs jlt, of ts a ind i]
  consider (null) "slot_null schema d j i"
    | (bad) "\<not> slot_null schema d j i" "bad_slice ind (slot_slice schema d j i)"
    | (good) "\<not> slot_null schema d j i" "\<not> bad_slice ind (slot_slice schema d j i)"
    by blast
  then show ?case
  proof cases
    case null
    with step run have "fixup_rows schema ts a ind i (Suc j * row_size schema) (Suc j) d = (res, d')"
      by simp
    from Suc.hyps(1) [OF k len sj this] have ih: "length d' = length d \<and>
      (case res of
         Some st \<Rightarrow>
           \<exists>r. Suc j \<le> r \<and> r < m \<and> \<not> slot_null schema d r i \<and> bad_slice ind (slot_slice schema d r i)
             \<and> st = Status_make kCorruption
                   (bad_slice_message ts r (column schema i) (slot_slice schema d r i)) [] (-1)
       | None \<Rightarrow>
           (\<forall>q < length d. (\<forall>r. Suc j \<le> r \<and> r < m \<and> \<not> slot_null schema d r i \<longrightarrow> \<not> in_cell schema r i q)
              \<longrightarrow> d' ! q = d ! q)
           \<and> (\<forall>r. Suc j \<le> r \<and> r < m \<and> \<not> slot_null schema d r i \<longrightarrow>
                 \<not> bad_slice ind (slot_slice schema d r i)
                 \<and> read_bytes d' (cell_pos schema r i) 16
                     = store_slice (materialize a (slot_slice schema d r i))))" .
    have up: "Suc j \<le> r" if "j \<le> r" "\<not> slot_null schema d r i" for r
      using that null by (cases "r = j") auto
    show ?thesis
    proof (cases res)
      case None
      with ih up show ?thesis by simp
    next
      case (Some st)
      with ih obtain r where "Suc j \<le> r" "r < m" "\<not> slot_null schema d r i"
        "bad_slice ind (slot_slice schema d r i)"
        "st = Status_make kCorruption
                   (bad_slice_message ts r (column schema i) (slot_slice schema d r i)) [] (-1)"
        by auto
      then have "\<exists>r. j \<le> r \<and> r < m \<and> \<not> slot_null schema d r i \<and> bad_slice ind (slot_slice schema d r i)
             \<and> st = Status_make kCorruption
                   (bad_slice_message ts r (column schema i) (slot_slice schema d r i)) [] (-1)"
        by (intro exI [of _ r]) simp
      with ih Some show ?thesis by simp
    qed
  next
    case bad
    with step run have "res = Some (Status_make kCorruption
        (bad_slice_message ts j (column schema i) (slot_slice schema d j i)) [] (-1))" "d' = d"
      by simp_all
    with bad jm show ?thesis by auto
  next
    case good
    define d1 where "d1 = write_bytes d (cell_pos schema j i)
      (store_slice (materialize a (slot_slice schema d j i)))"
    note w = fixup_write [OF i str len jm d1_def]
    from good step run have run1:
      "fixup_rows schema ts a ind i (Suc j * row_size schema) (Suc j) d1 = (res, d')"
      by (simp add: d1_def)
    have len1: "length d1 = m * row_size schema" using w(1) len by simp
    from Suc.hyps(1) [OF k len1 sj run1] have ih: "length d' = length d1 \<and>
      (case res of
         Some st \<Rightarrow>
           \<exists>r. Suc j \<le> r \<and> r < m \<and> \<not> slot_null schema d1 r i \<and> bad_slice ind (slot_slice schema d1 r i)
             \<and> st = Status_make kCorruption
                   (bad_slice_message ts r (column schema i) (slot_slice schema d1 r i)) [] (-1)
       | None \<Rightarrow>
           (\<forall>q < length d1. (\<forall>r. Suc j \<le> r \<and> r < m \<and> \<not> slot_null schema d1 r i \<longrightarrow> \<not> in_cell schema r i q)
              \<longrightarrow> d' ! q = d1 ! q)
           \<and> (\<forall>r. Suc j \<le> r \<and> r < m \<and> \<not> slot_null schema d1 r i \<longrightarrow>
                 \<not> bad_slice ind (slot_slice schema d1 r i)
                 \<and> read_bytes d' (cell_pos schema r i) 16
                     = store_slice (materialize a (slot_slice schema d1 r i))))" .
    have tn: "slot_null schema d1 r i = slot_null schema d r i" if "r < m" for r
      by (rule w(4) [OF i that])
    have ts: "slot_slice schema d1 r i = slot_slice schema d r i" if "r < m" "Suc j \<le> r" for r
      using that by (intro w(5) [OF i str]) simp_all
    have l: "length d' = length d" using ih w(1) by simp
    show ?thesis
    proof (cases res)
      case (Some st)
      with ih obtain r where r: "Suc j \<le> r" "r < m" "\<not> slot_null schema d1 r i"
        "bad_slice ind (slot_slice schema d1 r i)"
        "st = Status_make kCorruption
                   (bad_slice_message ts r (column schema i) (slot_slice schema d1 r i)) [] (-1)"
        by auto
      have "j \<le> r \<and> r < m \<and> \<not> slot_null schema d r i \<and> bad_slice ind (slot_slice schema d r i)
             \<and> st = Status_make kCorruption
                   (bad_slice_message ts r (column schema i) (slot_slice schema d r i)) [] (-1)"
        using r tn [OF r(2)] ts [OF r(2,1)] by simp
      then have "\<exists>r. j \<le> r \<and> r < m \<and> \<not> slot_null schema d r i \<and> bad_slice ind (slot_slice schema d r i)
             \<and> st = Status_make kCorruption
                   (bad_slice_message ts r (column schema i) (slot_slice schema d r i)) [] (-1)"
        by (rule exI)
      with l Some show ?thesis by simp
    next
      case None
      with ih have f1: "\<And>q. q < length d1 \<Longrightarrow>
            (\<And>r. Suc j \<le> r \<Longrightarrow> r < m \<Longrightarrow> \<not> slot_null schema d1 r i \<Longrightarrow> \<not> in_cell schema r i q)
            \<Longrightarrow> d' ! q = d1 ! q"
        and c1: "\<And>r. Suc j \<le> r \<Longrightarrow> r < m \<Longrightarrow> \<not> slot_null schema d1 r i \<Longrightarrow>
               \<not> bad_slice ind (slot_slice schema d1 r i)
               \<and> read_bytes d' (cell_pos schema r i) 16
                   = store_slice (materialize a (slot_slice schema d1 r i))"
        by simp_all
      have frame: "d' ! q = d ! q"
        if q: "q < length d"
          and out: "\<forall>r. j \<le> r \<and> r < m \<and> \<not> slot_null schema d r i \<longrightarrow> \<not> in_cell schema r i q" for q
      proof -
        have "\<not> in_cell schema j i q" using out good(1) jm by simp
        then have a: "d1 ! q = d ! q" by (rule w(2) [OF q])
        have "d' ! q = d1 ! q"
        proof (rule f1)
          show "q < length d1" using q w(1) by simp
          fix r assume "Suc j \<le> r" "r < m" "\<not> slot_null schema d1 r i"
          then show "\<not> in_cell schema r i q" using out tn by simp
        qed
        with a show ?thesis by simp
      qed
      have cells: "\<not> bad_slice ind (slot_slice schema d r i)
               \<and> read_bytes d' (cell_pos schema r i) 16
                   = store_slice (materialize a (slot_slice schema d r i))"
        if r: "j \<le> r" "r < m" "\<not> slot_null schema d r i" for r
      proof (cases "r = j")
        case True
        have "read_bytes d' (cell_pos schema j i) 16 = read_bytes d1 (cell_pos schema j i) 16"
        proof (rule cell_agree)
          show "cell_pos schema j i + 16 \<le> length d1"
            using cell_in_buffer [OF i jm len1] str by simp
          show "length d' = length d1" using ih by simp
          show "16 \<le> type_size (type (column schema i))" by (simp add: str)
          fix q assume q: "q < length d1" "in_cell schema j i q"
          show "d' ! q = d1 ! q"
          proof (rule f1 [OF q(1)])
            fix r assume "Suc j \<le> r"
            then show "\<not> in_cell schema r i q" using in_cell_unique [OF i i q(2), of r] by auto
          qed
        qed
        with w(3) good(2) True show ?thesis by simp
      next
        case False
        with r have sr: "Suc j \<le> r" by simp
        from c1 [OF sr r(2)] r(3) tn [OF r(2)] ts [OF r(2) sr] show ?thesis by simp
      qed
      from l None frame cells show ?thesis by simp
    qed
  qed
qed


lemma fixup_columns_done:
  "num_columns schema \<le> i \<Longrightarrow> fixup_columns schema ts a ind i d = (None, d)"
  by (subst fixup_columns.simps) simp

lemma fixup_columns_skip:
  "i < num_columns schema \<Longrightarrow> type (column schema i) \<noteq> STRING \<Longrightarrow>
   fixup_columns schema ts a ind i d = fixup_columns schema ts a ind (Suc i) d"
  by (subst fixup_columns.simps) simp

lemma fixup_columns_string:
  "i < num_columns schema \<Longrightarrow> type (column schema i) = STRING \<Longrightarrow>
   fixup_columns schema ts a ind i d =
     (case fixup_rows schema ts a ind i 0 0 d of
        (Some s, d1) \<Rightarrow> (Some s, d1)
      | (None, d1) \<Rightarrow> fixup_columns schema ts a ind (Suc i) d1)"
  by (subst fixup_columns.simps) (simp split: prod.split option.split)

lemma fixup_columns_spec:
  assumes rs: "0 < row_size schema"
    and len: "length d = m * row_size schema"
    and run: "fixup_columns schema ts a ind i d = (res, d')"
  shows "length d' = length d \<and>
    (case res of
       Some st \<Rightarrow>
         \<exists>i' r. i \<le> i' \<and> i' < num_columns schema \<and> type (column schema i') = STRING \<and> r < m
           \<and> \<not> slot_null schema d r i' \<and> bad_slice ind (slot_slice schema d r i')
           \<and> st = Status_make kCorruption
                 (bad_slice_message ts r (column schema i') (slot_slice schema d r i')) [] (-1)
     | None \<Rightarrow>
         (\<forall>q < length d.
            (\<forall>i' r. i \<le> i' \<and> i' < num_columns schema \<and> type (column schema i') = STRING \<and> r < m
                \<and> \<not> slot_null schema d r i' \<longrightarrow> \<not> in_cell schema r i' q)
            \<longrightarrow> d' ! q = d ! q)
         \<and> (\<forall>i' r. i \<le> i' \<and> i' < num_columns schema \<and> type (column schema i') = STRING \<and> r < m
                \<and> \<not> slot_null schema d r i' \<longrightarrow>
               \<not> bad_slice ind (slot_slice schema d r i')
               \<and> read_bytes d' (cell_pos schema r i') 16
                   = store_slice (materialize a (slot_slice schema d r i'))))"
  using len run
proof (induction "num_columns schema - i" arbitrary: i d res d')
  case 0
  then have "num_columns schema \<le> i" by simp
  from fixup_columns_done [OF this] "0.prems"(2) have "res = None" "d' = d" by simp_all
  with \<open>num_columns schema \<le> i\<close> show ?case by auto
next
  case (Suc k)
  note len = Suc.prems(1) and run = Suc.prems(2)
  from Suc.hyps(2) have i: "i < num_columns schema" and k: "k = num_columns schema - Suc i"
    by simp_all
  show ?case
  proof (cases "type (column schema i) = STRING")
    case False
    with fixup_columns_skip [OF i] run
    have run1: "fixup_columns schema ts a ind (Suc i) d = (res, d')" by simp
    note ih = Suc.hyps(1) [OF k len run1]
    have up: "Suc i \<le> i'" if "i \<le> i'" "type (column schema i') = STRING" for i'
      using that False by (cases "i' = i") auto
    show ?thesis
    proof (cases res)
      case None
      with ih up show ?thesis by simp
    next
      case (Some st)
      with ih obtain i' r where "Suc i \<le> i'" "i' < num_columns schema"
        "type (column schema i') = STRING" "r < m" "\<not> slot_null schema d r i'"
        "bad_slice ind (slot_slice schema d r i')"
        "st = Status_make kCorruption
                 (bad_slice_message ts r (column schema i') (slot_slice schema d r i')) [] (-1)"
        by auto
      then have "\<exists>i' r. i \<le> i' \<and> i' < num_columns schema \<and> type (column schema i') = STRING \<and> r < m
           \<and> \<not> slot_null schema d r i' \<and> bad_slice ind (slot_slice schema d r i')
           \<and> st = Status_make kCorruption
                 (bad_slice_message ts r (column schema i') (slot_slice schema d r i')) [] (-1)"
        by (intro exI [of _ i'] exI [of _ r]) simp
      with ih Some show ?thesis by simp
    qed
  next
    case str: True
    obtain res1 d1 where rows: "fixup_rows schema ts a ind i (0 * row_size schema) 0 d = (res1, d1)"
      by (cases "fixup_rows schema ts a ind i (0 * row_size schema) 0 d") auto
    note rspec = fixup_rows_spec [OF rs i str len _ rows]
    then have l1: "length d1 = length d" by simp
    show ?thesis
    proof (cases res1)
      case (Some st)
      with fixup_columns_string [OF i str] run rows have res: "res = Some st" "d' = d1" by simp_all
      from rspec Some obtain r where "r < m" "\<not> slot_null schema d r i"
        "bad_slice ind (slot_slice schema d r i)"
        "st = Status_make kCorruption
                 (bad_slice_message ts r (column schema i) (slot_slice schema d r i)) [] (-1)"
        by auto
      then have "\<exists>i' r. i \<le> i' \<and> i' < num_columns schema \<and> type (column schema i') = STRING \<and> r < m
           \<and> \<not> slot_null schema d r i' \<and> bad_slice ind (slot_slice schema d r i')
           \<and> st = Status_make kCorruption
                 (bad_slice_message ts r (column schema i') (slot_slice schema d r i')) [] (-1)"
        using i str by (intro exI [of _ i] exI [of _ r]) simp
      with res l1 show ?thesis by simp
    next
      case None
      with fixup_columns_string [OF i str] run rows
      have run1: "fixup_columns schema ts a ind (Suc i) d1 = (res, d')" by simp
      from rspec None have f0: "\<And>q. q < length d \<Longrightarrow>
            (\<And>r. r < m \<Longrightarrow> \<not> slot_null schema d r i \<Longrightarrow> \<not> in_cell schema r i q) \<Longrightarrow> d1 ! q = d ! q"
        and c0: "\<And>r. r < m \<Longrightarrow> \<not> slot_null schema d r i \<Longrightarrow>
               \<not> bad_slice ind (slot_slice schema d r i)
               \<and> read_bytes d1 (cell_pos schema r i) 16
                   = store_slice (materialize a (slot_slice schema d r i))"
        by simp_all
      have len1: "length d1 = m * row_size schema" using l1 len by simp
      note ih = Suc.hyps(1) [OF k len1 run1]
      have tn: "slot_null schema d1 r i' = slot_null schema d r i'"
        if "i' < num_columns schema" "r < m" for r i'
      proof (rule slot_null_agree [OF that len])
        fix q assume "q < length d" and "\<And>r' i'. i' < num_columns schema \<Longrightarrow> \<not> in_cell schema r' i' q"
        then show "d1 ! q = d ! q" using i by (intro f0) simp_all
      qed
      have ts: "slot_slice schema d1 r i' = slot_slice schema d r i'"
        if "i' < num_columns schema" "type (column schema i') = STRING" "r < m" "Suc i \<le> i'" for r i'
      proof (rule slot_slice_agree [OF that(1,2,3) len l1])
        fix q assume q: "q < length d" "in_cell schema r i' q"
        show "d1 ! q = d ! q"
        proof (rule f0 [OF q(1)])
          fix r' show "\<not> in_cell schema r' i q"
            using in_cell_unique [OF that(1) i q(2), of r'] that(4) by auto
        qed
      qed
      have l: "length d' = length d" using ih l1 by simp
      show ?thesis
      proof (cases res)
        case (Some st)
        with ih obtain i' r where r: "Suc i \<le> i'" "i' < num_columns schema"
          "type (column schema i') = STRING" "r < m" "\<not> slot_null schema d1 r i'"
          "bad_slice ind (slot_slice schema d1 r i')"
          "st = Status_make kCorruption
                   (bad_slice_message ts r (column schema i') (slot_slice schema d1 r i')) [] (-1)"
          by auto
        have "i \<le> i' \<and> i' < num_columns schema \<and> type (column schema i') = STRING \<and> r < m
           \<and> \<not> slot_null schema d r i' \<and> bad_slice ind (slot_slice schema d r i')
           \<and> st = Status_make kCorruption
                 (bad_slice_message ts r (column schema i') (slot_slice schema d r i')) [] (-1)"
          using r tn [OF r(2,4)] ts [OF r(2,3,4,1)] by simp
        then have "\<exists>i' r. i \<le> i' \<and> i' < num_columns schema \<and> type (column schema i') = STRING \<and> r < m
           \<and> \<not> slot_null schema d r i' \<and> bad_slice ind (slot_slice schema d r i')
           \<and> st = Status_make kCorruption
                 (bad_slice_message ts r (column schema i') (slot_slice schema d r i')) [] (-1)"
          by blast
        with l Some show ?thesis by simp
      next
        case None
        with ih have f1: "\<And>q. q < length d1 \<Longrightarrow>
            (\<And>i' r. Suc i \<le> i' \<Longrightarrow> i' < num_columns schema \<Longrightarrow> type (column schema i') = STRING
                \<Longrightarrow> r < m \<Longrightarrow> \<not> slot_null schema d1 r i' \<Longrightarrow> \<not> in_cell schema r i' q)
            \<Longrightarrow> d' ! q = d1 ! q"
          and c1: "\<And>i' r. Suc i \<le> i' \<Longrightarrow> i' < num_columns schema \<Longrightarrow> type (column schema i') = STRING
                \<Longrightarrow> r < m \<Longrightarrow> \<not> slot_null schema d1 r i' \<Longrightarrow>
               \<not> bad_slice ind (slot_slice schema d1 r i')
               \<and> read_bytes d' (cell_pos schema r i') 16
                   = store_slice (materialize a (slot_slice schema d1 r i'))"
          by simp_all
        have frame: "d' ! q = d ! q"
          if q: "q < length d"
            and out: "\<forall>i' r. i \<le> i' \<and> i' < num_columns schema \<and> type (column schema i') = STRING \<and> r < m
                \<and> \<not> slot_null schema d r i' \<longrightarrow> \<not> in_cell schema r i' q" for q
        proof -
          have a: "d1 ! q = d ! q" using out i str by (intro f0 [OF q]) simp
          have "d' ! q = d1 ! q"
          proof (rule f1)
            show "q < length d1" using q l1 by simp
            fix i' r assume "Suc i \<le> i'" "i' < num_columns schema" "type (column schema i') = STRING"
              "r < m" "\<not> slot_null schema d1 r i'"
            then show "\<not> in_cell schema r i' q" using out tn by simp
          qed
          with a show ?thesis by simp
        qed
        have cells: "\<not> bad_slice ind (slot_slice schema d r i')
               \<and> read_bytes d' (cell_pos schema r i') 16
                   = store_slice (materialize a (slot_slice schema d r i'))"
          if r: "i \<le> i'" "i' < num_columns schema" "type (column schema i') = STRING" "r < m"
            "\<not> slot_null schema d r i'" for i' r
        proof (cases "i' = i")
          case True
          have "read_bytes d' (cell_pos schema r i) 16 = read_bytes d1 (cell_pos schema r i) 16"
          proof (rule cell_agree)
            show "cell_pos schema r i + 16 \<le> length d1"
              using cell_in_buffer [OF i r(4) len1] str by simp
            show "length d' = length d1" using ih by simp
            show "16 \<le> type_size (type (column schema i))" by (simp add: str)
            fix q assume q: "q < length d1" "in_cell schema r i q"
            show "d' ! q = d1 ! q"
            proof (rule f1 [OF q(1)])
              fix i' r' assume "Suc i \<le> i'" "i' < num_columns schema"
              then show "\<not> in_cell schema r' i' q" using in_cell_unique [OF i _ q(2), of i' r'] by auto
            qed
          qed
          with c0 [OF r(4)] r(5) True show ?thesis by simp
        next
          case False
          with r have si: "Suc i \<le> i'" by simp
          from c1 [OF si r(2,3,4)] r(5) tn [OF r(2,4)] ts [OF r(2,3,4) si] show ?thesis by simp
        qed
        from l None frame cells show ?thesis by simp
      qed
    qed
  qed
qed


section \<open>The encoder\<close>

lemma length_slice_bytes [simp]: "length (slice_bytes mem s) = unat (slice_size s)"
  by (simp add: slice_bytes_def)

lemma read_bytes_suffix: "read_bytes (a @ b) (length a) (length b) = b"
  by (simp add: read_bytes_def)

lemma cell_bytes_agree:
  assumes "base + column_offset schema i + type_size (type (column schema i)) \<le> length buf"
    and "length buf' = length buf"
    and "\<And>q. q < length buf \<Longrightarrow> base + column_offset schema i \<le> q
          \<Longrightarrow> q < base + column_offset schema i + type_size (type (column schema i))
          \<Longrightarrow> buf' ! q = buf ! q"
  shows "cell_bytes schema buf' base i = cell_bytes schema buf base i"
  unfolding cell_bytes_def
proof (rule read_bytes_cong)
  show "base + column_offset schema i + type_size (type (column schema i)) \<le> length buf'"
    using assms(1,2) by simp
  show "length buf' = length buf" by (rule assms(2))
  fix q assume q: "base + column_offset schema i \<le> q"
    "q < base + column_offset schema i + type_size (type (column schema i))"
  then have "q < length buf" using assms(1) by simp
  then show "buf' ! q = buf ! q" using q by (rule assms(3))
qed

lemma encoded_mono:
  assumes "encoded mem schema src i buf base indir"
    and "cell_bytes schema buf' base i = cell_bytes schema buf base i"
  shows "encoded mem schema src i buf' base (indir @ suf)"
proof -
  have "\<exists>off. off + n \<le> length (indir @ suf) \<and> P off \<and> read_bytes (indir @ suf) off n = bs"
    if "\<exists>off. off + n \<le> length indir \<and> P off \<and> read_bytes indir off n = bs" for n P bs
  proof -
    from that obtain off where "off + n \<le> length indir" "P off" "read_bytes indir off n = bs"
      by blast
    then have "off + n \<le> length (indir @ suf) \<and> P off \<and> read_bytes (indir @ suf) off n = bs"
      by (simp add: read_bytes_append)
    then show ?thesis by blast
  qed
  with assms show ?thesis unfolding encoded_def by (simp split: if_splits)
qed

lemma encode_column_spec:
  assumes i: "i < num_columns schema" and len: "base + row_size schema \<le> length (rows pb)"
    and src: "cell_bytes schema (rows pb) base i = cell_bytes schema src 0 i"
  shows "length (rows (encode_column mem schema src base i pb)) = length (rows pb)"
    and "\<exists>suf. indirect_data (encode_column mem schema src base i pb) = indirect_data pb @ suf"
    and "\<And>q. q < length (rows pb) \<Longrightarrow>
           \<not> (base + column_offset schema i \<le> q
              \<and> q < base + column_offset schema i + type_size (type (column schema i)))
           \<Longrightarrow> rows (encode_column mem schema src base i pb) ! q = rows pb ! q"
    and "encoded mem schema src i (rows (encode_column mem schema src base i pb)) base
           (indirect_data (encode_column mem schema src base i pb))"
proof -
  let ?pos = "base + column_offset schema i" and ?n = "type_size (type (column schema i))"
  let ?pb1 = "encode_column mem schema src base i pb"
  have fit: "?pos + ?n \<le> length (rows pb)" using cell_in_row [OF i] len by linarith
  consider (null) "is_nullable (column schema i) \<and> is_null schema src 0 i"
    | (str) "\<not> (is_nullable (column schema i) \<and> is_null schema src 0 i)" "type (column schema i) = STRING"
    | (other) "\<not> (is_nullable (column schema i) \<and> is_null schema src 0 i)" "type (column schema i) \<noteq> STRING"
    by blast
  then have "length (rows ?pb1) = length (rows pb)
    \<and> (\<exists>suf. indirect_data ?pb1 = indirect_data pb @ suf)
    \<and> (\<forall>q < length (rows pb). \<not> (?pos \<le> q \<and> q < ?pos + ?n) \<longrightarrow> rows ?pb1 ! q = rows pb ! q)
    \<and> encoded mem schema src i (rows ?pb1) base (indirect_data ?pb1)"
  proof cases
    case null
    have pb1: "?pb1 = pb\<lparr>rows := write_bytes (rows pb) ?pos (replicate ?n 0)\<rparr>"
      using null by (simp add: encode_column_def)
    have "read_bytes (write_bytes (rows pb) ?pos (replicate ?n 0)) ?pos (length (replicate ?n (0::byte)))
        = replicate ?n 0"
      by (rule read_write_same) (use fit in simp)
    then have "encoded mem schema src i (rows ?pb1) base (indirect_data ?pb1)"
      using null by (simp add: pb1 encoded_def cell_bytes_def)
    then show ?thesis by (auto simp: pb1 nth_write_bytes)
  next
    case str
    let ?slc = "load_slice (cell_bytes schema src 0 i)"
    let ?new = "store_slice \<lparr>slice_data = of_nat (length (indirect_data pb)), slice_size = slice_size ?slc\<rparr>"
    have slc: "load_slice (read_bytes (rows pb) ?pos 16) = ?slc"
      using src str(2) by (simp add: cell_bytes_def)
    have pb1: "?pb1 = pb\<lparr>indirect_data := indirect_data pb @ slice_bytes mem ?slc,
        rows := write_bytes (rows pb) ?pos ?new\<rparr>"
      using str by (auto simp: encode_column_def Let_def slc)
    have "read_bytes (write_bytes (rows pb) ?pos ?new) ?pos (length ?new) = ?new"
      by (rule read_write_same) (use fit str(2) in simp)
    then have cell: "cell_bytes schema (rows ?pb1) base i = ?new"
      using str(2) by (simp add: pb1 cell_bytes_def)
    have "read_bytes (indirect_data pb @ slice_bytes mem ?slc) (length (indirect_data pb))
        (length (slice_bytes mem ?slc)) = slice_bytes mem ?slc"
      by (rule read_bytes_suffix)
    then have "length (indirect_data pb) + unat (slice_size ?slc) \<le> length (indirect_data ?pb1)
      \<and> cell_bytes schema (rows ?pb1) base i
          = store_slice \<lparr>slice_data = of_nat (length (indirect_data pb)), slice_size = slice_size ?slc\<rparr>
      \<and> read_bytes (indirect_data ?pb1) (length (indirect_data pb)) (unat (slice_size ?slc))
          = slice_bytes mem ?slc"
      using cell by (simp add: pb1)
    then have "\<exists>off. off + unat (slice_size ?slc) \<le> length (indirect_data ?pb1)
      \<and> cell_bytes schema (rows ?pb1) base i
          = store_slice \<lparr>slice_data = of_nat off, slice_size = slice_size ?slc\<rparr>
      \<and> read_bytes (indirect_data ?pb1) off (unat (slice_size ?slc)) = slice_bytes mem ?slc"
      by (rule exI)
    then have "encoded mem schema src i (rows ?pb1) base (indirect_data ?pb1)"
      unfolding encoded_def using str by (cases "is_nullable (column schema i)") simp_all
    then show ?thesis using str(2) by (auto simp: pb1 nth_write_bytes)
  next
    case other
    then have pb1: "?pb1 = pb" by (auto simp: encode_column_def Let_def)
    have "encoded mem schema src i (rows pb) base (indirect_data pb)"
      using other src by (auto simp: encoded_def)
    then show ?thesis by (simp add: pb1)
  qed
  then show "length (rows ?pb1) = length (rows pb)"
    and "\<exists>suf. indirect_data ?pb1 = indirect_data pb @ suf"
    and "\<And>q. q < length (rows pb) \<Longrightarrow> \<not> (?pos \<le> q \<and> q < ?pos + ?n) \<Longrightarrow> rows ?pb1 ! q = rows pb ! q"
    and "encoded mem schema src i (rows ?pb1) base (indirect_data ?pb1)"
    by blast+
qed


lemma encode_columns_done:
  "num_columns schema \<le> i \<Longrightarrow> encode_columns mem schema src base i pb = pb"
  by (subst encode_columns.simps) simp

lemma encode_columns_step:
  "i < num_columns schema \<Longrightarrow>
   encode_columns mem schema src base i pb
     = encode_columns mem schema src base (Suc i) (encode_column mem schema src base i pb)"
  by (subst encode_columns.simps) simp

lemma encode_columns_spec:
  assumes len: "base + row_size schema \<le> length (rows pb)"
    and src: "\<And>i'. i \<le> i' \<Longrightarrow> i' < num_columns schema
          \<Longrightarrow> cell_bytes schema (rows pb) base i' = cell_bytes schema src 0 i'"
  shows "length (rows (encode_columns mem schema src base i pb)) = length (rows pb)
    \<and> (\<exists>suf. indirect_data (encode_columns mem schema src base i pb) = indirect_data pb @ suf)
    \<and> (\<forall>q < length (rows pb).
          (\<forall>i'. i \<le> i' \<and> i' < num_columns schema \<longrightarrow>
             \<not> (base + column_offset schema i' \<le> q
                \<and> q < base + column_offset schema i' + type_size (type (column schema i'))))
          \<longrightarrow> rows (encode_columns mem schema src base i pb) ! q = rows pb ! q)
    \<and> (\<forall>i'. i \<le> i' \<and> i' < num_columns schema \<longrightarrow>
          encoded mem schema src i' (rows (encode_columns mem schema src base i pb)) base
            (indirect_data (encode_columns mem schema src base i pb)))"
  using len src
proof (induction "num_columns schema - i" arbitrary: i pb)
  case 0
  then have "num_columns schema \<le> i" by simp
  then show ?case by (auto simp: encode_columns_done)
next
  case (Suc k)
  note len = Suc.prems(1) and src = Suc.prems(2)
  from Suc.hyps(2) have i: "i < num_columns schema" and k: "k = num_columns schema - Suc i"
    by simp_all
  define pb1 where "pb1 = encode_column mem schema src base i pb"
  define pb' where "pb' = encode_columns mem schema src base (Suc i) pb1"
  have run: "encode_columns mem schema src base i pb = pb'"
    by (simp add: encode_columns_step [OF i] pb1_def pb'_def)
  note e = encode_column_spec [where mem = mem, OF i len src [OF le_refl i], folded pb1_def]
  have len1: "base + row_size schema \<le> length (rows pb1)" using e(1) len by simp
  have fit: "base + column_offset schema i' + type_size (type (column schema i')) \<le> length (rows pb)"
    if "i' < num_columns schema" for i'
    using cell_in_row [OF that] len by linarith
  have src1: "cell_bytes schema (rows pb1) base i' = cell_bytes schema src 0 i'"
    if "Suc i \<le> i'" "i' < num_columns schema" for i'
  proof -
    have "cell_bytes schema (rows pb1) base i' = cell_bytes schema (rows pb) base i'"
    proof (rule cell_bytes_agree [OF fit [OF that(2)] e(1)])
      fix q assume q: "q < length (rows pb)" "base + column_offset schema i' \<le> q"
      have "column_offset schema i + type_size (type (column schema i)) \<le> column_offset schema i'"
        using that by (intro cells_ordered) simp_all
      with q(2) show "rows pb1 ! q = rows pb ! q" by (intro e(3) [OF q(1)]) simp
    qed
    with src [OF _ that(2)] that(1) show ?thesis by simp
  qed
  from Suc.hyps(1) [OF k len1 src1, folded pb'_def]
  have ih1: "length (rows pb') = length (rows pb1)"
    and ih2: "\<exists>suf. indirect_data pb' = indirect_data pb1 @ suf"
    and ih3: "\<And>q. q < length (rows pb1) \<Longrightarrow>
          (\<And>i'. Suc i \<le> i' \<Longrightarrow> i' < num_columns schema \<Longrightarrow>
             \<not> (base + column_offset schema i' \<le> q
                \<and> q < base + column_offset schema i' + type_size (type (column schema i'))))
          \<Longrightarrow> rows pb' ! q = rows pb1 ! q"
    and ih4: "\<And>i'. Suc i \<le> i' \<Longrightarrow> i' < num_columns schema \<Longrightarrow>
          encoded mem schema src i' (rows pb') base (indirect_data pb')"
    by simp_all
  have g1: "length (rows pb') = length (rows pb)" using ih1 e(1) by simp
  have g2: "\<exists>suf. indirect_data pb' = indirect_data pb @ suf"
  proof -
    from ih2 obtain s2 where "indirect_data pb' = indirect_data pb1 @ s2" by blast
    moreover from e(2) obtain s1 where "indirect_data pb1 = indirect_data pb @ s1" by blast
    ultimately have "indirect_data pb' = indirect_data pb @ (s1 @ s2)" by simp
    then show ?thesis by (rule exI)
  qed
  have g3: "rows pb' ! q = rows pb ! q"
    if q: "q < length (rows pb)"
      and out: "\<forall>i'. i \<le> i' \<and> i' < num_columns schema \<longrightarrow>
             \<not> (base + column_offset schema i' \<le> q
                \<and> q < base + column_offset schema i' + type_size (type (column schema i')))" for q
  proof -
    have "rows pb1 ! q = rows pb ! q" using out i by (intro e(3) [OF q]) simp
    moreover have "rows pb' ! q = rows pb1 ! q"
      using q e(1) out by (intro ih3) simp_all
    ultimately show ?thesis by simp
  qed
  have g4: "encoded mem schema src i' (rows pb') base (indirect_data pb')"
    if "i \<le> i'" "i' < num_columns schema" for i'
  proof (cases "i' = i")
    case True
    from ih2 obtain s2 where s2: "indirect_data pb' = indirect_data pb1 @ s2" by blast
    have "cell_bytes schema (rows pb') base i = cell_bytes schema (rows pb1) base i"
    proof (rule cell_bytes_agree)
      show "base + column_offset schema i + type_size (type (column schema i)) \<le> length (rows pb1)"
        using fit [OF i] e(1) by simp
      show "length (rows pb') = length (rows pb1)" by (rule ih1)
      fix q assume q: "q < length (rows pb1)"
        "q < base + column_offset schema i + type_size (type (column schema i))"
      show "rows pb' ! q = rows pb1 ! q"
      proof (rule ih3 [OF q(1)])
        fix i' assume "Suc i \<le> i'" "i' < num_columns schema"
        then have "column_offset schema i + type_size (type (column schema i)) \<le> column_offset schema i'"
          by (intro cells_ordered) simp_all
        with q(2) show "\<not> (base + column_offset schema i' \<le> q
            \<and> q < base + column_offset schema i' + type_size (type (column schema i')))"
          by simp
      qed
    qed
    from encoded_mono [OF e(4) this, of s2] s2 True show ?thesis by simp
  next
    case False
    with that show ?thesis by (intro ih4) simp_all
  qed
  from g1 g2 g3 g4 show ?case unfolding run by blast
qed

text \<open>What one \<^verbatim>\<open>AddRowToRowBlockPB\<close> does to a block, for a schema with a column.\<close>

lemma AddRowToRowBlockPB_spec:
  assumes rs: "0 < row_size (row_schema row)"
  shows "\<exists>pb'. AddRowToRowBlockPB mem row pb = Inr pb'
    \<and> length (rows pb') = length (rows pb) + row_size (row_schema row)
    \<and> (\<forall>q < length (rows pb). rows pb' ! q = rows pb ! q)
    \<and> (\<exists>suf. indirect_data pb' = indirect_data pb @ suf)
    \<and> (\<forall>k < null_bitmap_size (row_schema row).
          rows pb' ! (length (rows pb) + k)
            = read_mem mem (row_data_ptr row) (row_size (row_schema row)) ! k)
    \<and> (\<forall>i < num_columns (row_schema row).
          encoded mem (row_schema row) (read_mem mem (row_data_ptr row) (row_size (row_schema row))) i
            (rows pb') (length (rows pb)) (indirect_data pb'))"
proof -
  let ?schema = "row_schema row"
  let ?src = "read_mem mem (row_data_ptr row) (row_size ?schema)"
  let ?base = "length (rows pb)"
  let ?pb0 = "pb\<lparr>rows := rows pb @ ?src\<rparr>"
  let ?pb' = "encode_columns mem ?schema ?src ?base 0 ?pb0"
  have run: "AddRowToRowBlockPB mem row pb = Inr ?pb'"
    using rs by (simp add: AddRowToRowBlockPB_def Let_def)
  have len0: "?base + row_size ?schema \<le> length (rows ?pb0)" by simp
  have src0: "cell_bytes ?schema (rows ?pb0) ?base i' = cell_bytes ?schema ?src 0 i'" for i'
    by (simp add: cell_bytes_def read_bytes_def)
  from encode_columns_spec [where i = 0 and mem = mem, OF len0 src0]
  have s1: "length (rows ?pb') = length (rows ?pb0)"
    and s2: "\<exists>suf. indirect_data ?pb' = indirect_data ?pb0 @ suf"
    and s3: "\<And>q. q < length (rows ?pb0) \<Longrightarrow>
          (\<And>i'. i' < num_columns ?schema \<Longrightarrow>
             \<not> (?base + column_offset ?schema i' \<le> q
                \<and> q < ?base + column_offset ?schema i' + type_size (type (column ?schema i'))))
          \<Longrightarrow> rows ?pb' ! q = rows ?pb0 ! q"
    and s4: "\<And>i'. i' < num_columns ?schema \<Longrightarrow>
          encoded mem ?schema ?src i' (rows ?pb') ?base (indirect_data ?pb')"
    by simp_all
  have a: "rows ?pb' ! q = rows pb ! q" if "q < ?base" for q
  proof -
    have "rows ?pb' ! q = rows ?pb0 ! q" using that by (intro s3) simp_all
    then show ?thesis using that by (simp add: nth_append)
  qed
  have b: "rows ?pb' ! (?base + k) = ?src ! k" if "k < null_bitmap_size ?schema" for k
  proof -
    have "null_bitmap_size ?schema \<le> row_size ?schema" by (simp add: row_size_def)
    with that have k: "k < row_size ?schema" by simp
    have "rows ?pb' ! (?base + k) = rows ?pb0 ! (?base + k)"
    proof (rule s3)
      show "?base + k < length (rows ?pb0)" using k by simp
      fix i'
      have "null_bitmap_size ?schema \<le> column_offset ?schema i'" by (rule null_bitmap_le_offset)
      with that show "\<not> (?base + column_offset ?schema i' \<le> ?base + k
          \<and> ?base + k < ?base + column_offset ?schema i' + type_size (type (column ?schema i')))"
        by simp
    qed
    then show ?thesis by (simp add: nth_append)
  qed
  from run s1 s2 s4 a b show ?thesis by simp
qed


section \<open>Decoding a block\<close>

lemma push_rows_spec:
  assumes "0 < rs" "j \<le> m"
  shows "push_rows rs (m * rs) (j * rs) ptrs = ptrs @ map (\<lambda>r. r * rs) [j..<m]"
  using assms(2)
proof (induction "m - j" arbitrary: j ptrs)
  case 0
  then have "j = m" by simp
  then show ?case by (subst push_rows.simps) simp
next
  case (Suc k)
  then have jm: "j < m" and k: "k = m - Suc j" and sj: "Suc j \<le> m" by simp_all
  have "Suc j * rs \<le> m * rs" using sj by (rule mult_le_mono1)
  then have "j * rs + rs \<le> m * rs" by simp
  then have lt: "j * rs < m * rs" using assms(1) by linarith
  have "push_rows rs (m * rs) (j * rs) ptrs = push_rows rs (m * rs) (Suc j * rs) (ptrs @ [j * rs])"
    using lt assms(1) by (subst push_rows.simps) (simp add: add.commute)
  also have "\<dots> = (ptrs @ [j * rs]) @ map (\<lambda>r. r * rs) [Suc j..<m]"
    by (rule Suc.hyps(1) [OF k sj])
  also have "\<dots> = ptrs @ map (\<lambda>r. r * rs) [j..<m]"
    using jm by (simp add: upt_conv_Cons)
  finally show ?case .
qed

lemma extract_unfold:
  assumes "0 < row_size schema" "length (rows pb) = m * row_size schema"
  shows "ExtractRowsFromRowBlockPB ts schema a pb ptrs =
    (case fixup_columns schema ts a (indirect_data pb) 0 (rows pb) of
       (Some s, d') \<Rightarrow> Inr (s, pb\<lparr>rows := d'\<rparr>, ptrs)
     | (None, d') \<Rightarrow>
         Inr (Status_OK, pb\<lparr>rows := d'\<rparr>, push_rows (row_size schema) (length d') 0 ptrs))"
  using assms by (simp add: ExtractRowsFromRowBlockPB_def Let_def)

lemma extract_size_mismatch:
  assumes "0 < row_size schema" "length (rows pb) mod row_size schema \<noteq> 0"
  shows "ExtractRowsFromRowBlockPB ts schema a pb ptrs =
    Inr (Status_make kCorruption (size_mismatch_message (length (rows pb)) (row_size schema)) [] (-1),
         pb, ptrs)"
  using assms by (simp add: ExtractRowsFromRowBlockPB_def Let_def)

lemma not_ok_corruption [simp]: "\<not> ok (Status_make kCorruption msg msg2 pc)"
  by (simp add: ok_def Status_make_def)

lemma ok_Status_OK [simp]: "ok Status_OK"
  by (simp add: ok_def Status_OK_def)

text \<open>
  C2. For a row buffer whose length is a multiple of the slot size: if some slot of a
  string column that its row does not mark null holds a descriptor \<open>(offset, length)\<close>
  whose sum does not fit 64 bits or is greater than the length of the indirect buffer,
  \<^verbatim>\<open>ExtractRowsFromRowBlockPB\<close> returns a corruption status and the vector of rows is as
  it was. The message of the status is, for such a slot, the text "Row #", the row
  index of the slot in decimal, " contained bad indirect slice for column ", the
  column's \<^verbatim>\<open>ToString\<close> (as \<^verbatim>\<open>%s\<close> prints it), ": (", the descriptor's offset, ", ", its
  length and ")". A sum that wraps around is rejected like one that is too large.
\<close>

theorem extract_bad_indirect_slice:
  assumes "row_size schema dvd length (rows pb)"
    and "r < length (rows pb) div row_size schema"
    and "i < num_columns schema"
    and "type (column schema i) = STRING"
    and "\<not> slot_null schema (rows pb) r i"
    and "bad_slice (indirect_data pb) (slot_slice schema (rows pb) r i)"
  shows "\<exists>r' i' d'. r' < length (rows pb) div row_size schema \<and> i' < num_columns schema
    \<and> type (column schema i') = STRING \<and> \<not> slot_null schema (rows pb) r' i'
    \<and> bad_slice (indirect_data pb) (slot_slice schema (rows pb) r' i')
    \<and> ExtractRowsFromRowBlockPB ts schema a pb ptrs
        = Inr (\<lparr>code = kCorruption,
                message =
                  ''Row #'' @ fmt_signed 32 r' @ '' contained bad indirect slice for column ''
                    @ c_str (ts (column schema i'))
                    @ '': ('' @ fmt_signed 64 (unat (slice_data (slot_slice schema (rows pb) r' i')))
                    @ '', '' @ fmt_signed 64 (unat (slice_size (slot_slice schema (rows pb) r' i')))
                    @ '')'',
                posix_code = -1\<rparr>,
               pb\<lparr>rows := d'\<rparr>, ptrs)"
proof -
  let ?m = "length (rows pb) div row_size schema"
  have rs: "0 < row_size schema" using assms(2) by (cases "row_size schema = 0") simp_all
  have len: "length (rows pb) = ?m * row_size schema" using assms(1) by simp
  obtain res d' where run: "fixup_columns schema ts a (indirect_data pb) 0 (rows pb) = (res, d')"
    by (cases "fixup_columns schema ts a (indirect_data pb) 0 (rows pb)") auto
  note spec = fixup_columns_spec [OF rs len run]
  show ?thesis
  proof (cases res)
    case None
    with spec assms(2-6) show ?thesis by simp
  next
    case (Some st)
    with spec obtain i' r' where s: "i' < num_columns schema" "type (column schema i') = STRING"
      "r' < ?m" "\<not> slot_null schema (rows pb) r' i'"
      "bad_slice (indirect_data pb) (slot_slice schema (rows pb) r' i')"
      and st: "st = Status_make kCorruption
             (bad_slice_message ts r' (column schema i') (slot_slice schema (rows pb) r' i')) [] (-1)"
      by auto
    have "ExtractRowsFromRowBlockPB ts schema a pb ptrs = Inr (st, pb\<lparr>rows := d'\<rparr>, ptrs)"
      using run Some by (simp add: extract_unfold [OF rs len])
    then have "ExtractRowsFromRowBlockPB ts schema a pb ptrs
        = Inr (\<lparr>code = kCorruption,
                message =
                  ''Row #'' @ fmt_signed 32 r' @ '' contained bad indirect slice for column ''
                    @ c_str (ts (column schema i'))
                    @ '': ('' @ fmt_signed 64 (unat (slice_data (slot_slice schema (rows pb) r' i')))
                    @ '', '' @ fmt_signed 64 (unat (slice_size (slot_slice schema (rows pb) r' i')))
                    @ '')'',
                posix_code = -1\<rparr>,
               pb\<lparr>rows := d'\<rparr>, ptrs)"
      unfolding st Status_make_def bad_slice_message_def by simp
    with s show ?thesis by blast
  qed
qed

text \<open>
  C3. \<^verbatim>\<open>ExtractRowsFromRowBlockPB\<close> computes \<^verbatim>\<open>row_data->size() % row_size\<close> first. For the
  schema without columns the slot size is zero: the one-byte buffer of the test is not
  a multiple of it, and the call divides by zero where the claim has a corruption
  status.
\<close>

theorem extract_empty_schema_division_by_zero:
  "ExtractRowsFromRowBlockPB ts empty_schema a \<lparr>rows = [120], indirect_data = []\<rparr> ptrs
     = Inl division_by_zero"
  by (simp add: ExtractRowsFromRowBlockPB_def Let_def row_size_def null_bitmap_size_def empty_schema_def)

text \<open>
  C9. Whenever \<^verbatim>\<open>ExtractRowsFromRowBlockPB\<close> returns a status that is not OK, the vector
  of rows is what it was before the call; so are the indirect buffer and the length of
  the row buffer.
\<close>

theorem extract_error_keeps_rows:
  assumes "ExtractRowsFromRowBlockPB ts schema a pb ptrs = Inr (st, pb', ptrs')"
    and "\<not> ok st"
  shows "ptrs' = ptrs \<and> indirect_data pb' = indirect_data pb \<and> length (rows pb') = length (rows pb)"
proof -
  have rs: "0 < row_size schema"
    using assms(1) by (cases "row_size schema = 0") (simp_all add: ExtractRowsFromRowBlockPB_def)
  show ?thesis
  proof (cases "length (rows pb) mod row_size schema = 0")
    case False
    from extract_size_mismatch [OF rs False] assms(1) show ?thesis by simp
  next
    case True
    then have len: "length (rows pb) = (length (rows pb) div row_size schema) * row_size schema"
      by auto
    obtain res d' where run: "fixup_columns schema ts a (indirect_data pb) 0 (rows pb) = (res, d')"
      by (cases "fixup_columns schema ts a (indirect_data pb) 0 (rows pb)") auto
    from fixup_columns_spec [OF rs len run] have l: "length d' = length (rows pb)" by simp
    show ?thesis
    proof (cases res)
      case None
      with run assms show ?thesis by (simp add: extract_unfold [OF rs len])
    next
      case (Some s)
      with run assms(1) l show ?thesis by (auto simp: extract_unfold [OF rs len])
    qed
  qed
qed


section \<open>Blocks built by the encoder\<close>

lemma block_holds_empty: "block_holds schema [] empty_block"
  by (simp add: block_holds_def empty_block_def)

lemma add_row_holds:
  assumes rs: "0 < row_size schema" and old: "block_holds schema srcs pb"
    and run: "AddRowToRowBlockPB mem \<lparr>row_schema = schema, row_data_ptr = p\<rparr> pb = Inr pb1"
  shows "block_holds schema (srcs @ [(mem, p)]) pb1"
proof -
  let ?rs = "row_size schema" and ?m = "length srcs"
  let ?src = "read_mem mem p ?rs"
  have len: "length (rows pb) = ?m * ?rs" using old by (simp add: block_holds_def)
  from AddRowToRowBlockPB_spec [of "\<lparr>row_schema = schema, row_data_ptr = p\<rparr>" mem pb] rs run
  have l1: "length (rows pb1) = length (rows pb) + ?rs"
    and keep: "\<And>q. q < length (rows pb) \<Longrightarrow> rows pb1 ! q = rows pb ! q"
    and ind: "\<exists>suf. indirect_data pb1 = indirect_data pb @ suf"
    and bm: "\<And>k. k < null_bitmap_size schema \<Longrightarrow> rows pb1 ! (length (rows pb) + k) = ?src ! k"
    and enc: "\<And>i. i < num_columns schema \<Longrightarrow>
        encoded mem schema ?src i (rows pb1) (length (rows pb)) (indirect_data pb1)"
    by auto
  from ind obtain suf where suf: "indirect_data pb1 = indirect_data pb @ suf" by blast
  have nbs: "null_bitmap_size schema \<le> ?rs" by (simp add: row_size_def)
  have row_fit: "Suc r * ?rs \<le> length (rows pb)" if "r < ?m" for r
    using that len by (simp add: mult_le_mono1 Suc_leI del: mult_Suc)
  have "(\<forall>k < null_bitmap_size schema.
            rows pb1 ! (r * ?rs + k)
              = read_mem (fst ((srcs @ [(mem, p)]) ! r)) (snd ((srcs @ [(mem, p)]) ! r)) ?rs ! k)
         \<and> (\<forall>i < num_columns schema.
               encoded (fst ((srcs @ [(mem, p)]) ! r)) schema
                 (read_mem (fst ((srcs @ [(mem, p)]) ! r)) (snd ((srcs @ [(mem, p)]) ! r)) ?rs) i
                 (rows pb1) (r * ?rs) (indirect_data pb1))"
    if r: "r < length (srcs @ [(mem, p)])" for r
  proof (cases "r < ?m")
    case True
    then have at: "(srcs @ [(mem, p)]) ! r = srcs ! r" by (simp add: nth_append)
    let ?memr = "fst (srcs ! r)" and ?srcr = "read_mem (fst (srcs ! r)) (snd (srcs ! r)) ?rs"
    from old True have obm: "\<And>k. k < null_bitmap_size schema \<Longrightarrow> rows pb ! (r * ?rs + k) = ?srcr ! k"
      and oenc: "\<And>i. i < num_columns schema \<Longrightarrow>
          encoded ?memr schema ?srcr i (rows pb) (r * ?rs) (indirect_data pb)"
      by (simp_all add: block_holds_def)
    have a: "rows pb1 ! (r * ?rs + k) = ?srcr ! k" if k: "k < null_bitmap_size schema" for k
    proof -
      have "r * ?rs + k < length (rows pb)" using row_fit [OF True] k nbs by simp
      then show ?thesis using keep obm [OF k] by simp
    qed
    have b: "encoded ?memr schema ?srcr i (rows pb1) (r * ?rs) (indirect_data pb1)"
      if i: "i < num_columns schema" for i
    proof -
      have fit: "r * ?rs + column_offset schema i + type_size (type (column schema i)) \<le> length (rows pb)"
        using cell_in_row [OF i] row_fit [OF True] by simp
      have "cell_bytes schema (rows pb1) (r * ?rs) i = cell_bytes schema (rows pb) (r * ?rs) i"
        unfolding cell_bytes_def
      proof (rule read_bytes_eqI)
        show "r * ?rs + column_offset schema i + type_size (type (column schema i)) \<le> length (rows pb1)"
          using fit l1 by simp
        show "r * ?rs + column_offset schema i + type_size (type (column schema i)) \<le> length (rows pb)"
          by (rule fit)
        fix q assume "q < r * ?rs + column_offset schema i + type_size (type (column schema i))"
        with fit show "rows pb1 ! q = rows pb ! q" by (intro keep) simp
      qed
      from encoded_mono [OF oenc [OF i] this, of suf] suf show ?thesis by simp
    qed
    from a b at show ?thesis by simp
  next
    case False
    with r have req: "r = ?m" by simp
    then have at: "(srcs @ [(mem, p)]) ! r = (mem, p)" by simp
    have base: "r * ?rs = length (rows pb)" using req len by simp
    from bm enc show ?thesis by (simp add: at base)
  qed
  then show ?thesis using l1 len by (simp add: block_holds_def)
qed

lemma add_rows_holds:
  assumes rs: "0 < row_size schema"
  shows "block_holds schema done pb \<Longrightarrow> add_rows schema srcs pb = Inr pb'
    \<Longrightarrow> block_holds schema (done @ srcs) pb'"
proof (induction srcs arbitrary: "done" pb)
  case Nil
  then show ?case by simp
next
  case (Cons x srcs)
  obtain mem p where x: "x = (mem, p)" by (cases x)
  from Cons.prems(2) obtain pb1 where
    one: "AddRowToRowBlockPB mem \<lparr>row_schema = schema, row_data_ptr = p\<rparr> pb = Inr pb1"
    and rest: "add_rows schema srcs pb1 = Inr pb'"
    by (auto simp: x split: sum.splits)
  have "block_holds schema (done @ [(mem, p)]) pb1"
    by (rule add_row_holds [OF rs Cons.prems(1) one])
  from Cons.IH [OF this rest] show ?case by (simp add: x)
qed

lemma add_rows_row_size:
  assumes "srcs \<noteq> []" "add_rows schema srcs pb = Inr pb'"
  shows "0 < row_size schema"
proof (rule ccontr)
  assume "\<not> 0 < row_size schema"
  then have z: "row_size schema = 0" by simp
  obtain mem p rest where s: "srcs = (mem, p) # rest" using assms(1) by (cases srcs) auto
  have "AddRowToRowBlockPB mem \<lparr>row_schema = schema, row_data_ptr = p\<rparr> pb = Inl out_of_range"
    by (simp add: AddRowToRowBlockPB_def z)
  with assms(2) show False by (simp add: s)
qed

lemma add_rows_returns:
  assumes "0 < row_size schema"
  shows "\<exists>pb'. add_rows schema srcs pb = Inr pb'"
proof (induction srcs arbitrary: pb)
  case Nil
  then show ?case by simp
next
  case (Cons x srcs)
  obtain mem p where x: "x = (mem, p)" by (cases x)
  from AddRowToRowBlockPB_spec [of "\<lparr>row_schema = schema, row_data_ptr = p\<rparr>" mem pb] assms
  obtain pb1 where "AddRowToRowBlockPB mem \<lparr>row_schema = schema, row_data_ptr = p\<rparr> pb = Inr pb1"
    by auto
  with Cons.IH [of pb1] show ?case by (simp add: x)
qed


text \<open>Decoding a block that holds rows gives the rows back.\<close>

lemma extract_of_block:
  assumes rs: "0 < row_size schema" and holds: "block_holds schema srcs pb"
    and small: "length (indirect_data pb) < 2 ^ 64"
  shows "\<exists>d'. ExtractRowsFromRowBlockPB ts schema a pb ptrs
        = Inr (Status_OK, pb\<lparr>rows := d'\<rparr>, ptrs @ map (\<lambda>r. r * row_size schema) [0..<length srcs])
    \<and> (\<forall>r < length srcs. \<forall>i < num_columns schema.
          same_value schema (fst (srcs ! r))
            (read_mem (fst (srcs ! r)) (snd (srcs ! r)) (row_size schema))
            (place a (indirect_data pb) m0) d' (r * row_size schema) i)"
proof -
  let ?rs = "row_size schema" and ?m = "length srcs" and ?d = "rows pb" and ?ind = "indirect_data pb"
  let ?mem = "\<lambda>r. fst (srcs ! r)"
  let ?src = "\<lambda>r. read_mem (fst (srcs ! r)) (snd (srcs ! r)) (row_size schema)"
  have len: "length ?d = ?m * ?rs" using holds by (simp add: block_holds_def)
  have bm: "?d ! (r * ?rs + k) = ?src r ! k" if "r < ?m" "k < null_bitmap_size schema" for r k
    using holds that by (simp add: block_holds_def)
  have enc: "encoded (?mem r) schema (?src r) i ?d (r * ?rs) ?ind"
    if "r < ?m" "i < num_columns schema" for r i
    using holds that by (simp add: block_holds_def)
  text \<open>The null bits of the block are those of the source rows.\<close>
  have null: "slot_null schema ?d r i = (is_nullable (column schema i) \<and> is_null schema (?src r) 0 i)"
    if r: "r < ?m" and i: "i < num_columns schema" for r i
  proof (cases "is_nullable (column schema i)")
    case True
    from bm [OF r null_bit_in_bitmap [OF i True]]
    show ?thesis by (simp add: slot_null_def is_null_def True)
  next
    case False
    then show ?thesis by (simp add: slot_null_def)
  qed
  text \<open>The descriptors of the block are in bounds.\<close>
  have desc: "\<exists>off. off + unat (slice_size (load_slice (cell_bytes schema (?src r) 0 i))) \<le> length ?ind
      \<and> slot_slice schema ?d r i
          = \<lparr>slice_data = of_nat off, slice_size = slice_size (load_slice (cell_bytes schema (?src r) 0 i))\<rparr>
      \<and> read_bytes ?ind off (unat (slice_size (load_slice (cell_bytes schema (?src r) 0 i))))
          = slice_bytes (?mem r) (load_slice (cell_bytes schema (?src r) 0 i))"
    if r: "r < ?m" and i: "i < num_columns schema" and str: "type (column schema i) = STRING"
      and live: "\<not> slot_null schema ?d r i" for r i
  proof -
    let ?sz = "slice_size (load_slice (cell_bytes schema (?src r) 0 i))"
    have nn: "\<not> (is_nullable (column schema i) \<and> is_null schema (?src r) 0 i)"
      using live null [OF r i] by simp
    from enc [OF r i] have "\<exists>off. off + unat ?sz \<le> length ?ind
      \<and> cell_bytes schema ?d (r * ?rs) i = store_slice \<lparr>slice_data = of_nat off, slice_size = ?sz\<rparr>
      \<and> read_bytes ?ind off (unat ?sz) = slice_bytes (?mem r) (load_slice (cell_bytes schema (?src r) 0 i))"
      unfolding encoded_def if_not_P [OF nn] using str by simp
    then obtain off where off: "off + unat ?sz \<le> length ?ind"
      "cell_bytes schema ?d (r * ?rs) i = store_slice \<lparr>slice_data = of_nat off, slice_size = ?sz\<rparr>"
      "read_bytes ?ind off (unat ?sz) = slice_bytes (?mem r) (load_slice (cell_bytes schema (?src r) 0 i))"
      by blast
    have "slot_slice schema ?d r i = load_slice (cell_bytes schema ?d (r * ?rs) i)"
      by (simp add: slot_slice_def cell_bytes_def cell_pos_def str)
    then have "slot_slice schema ?d r i = \<lparr>slice_data = of_nat off, slice_size = ?sz\<rparr>"
      by (simp add: off(2))
    with off(1,3) show ?thesis by blast
  qed
  have good: "\<not> bad_slice ?ind (slot_slice schema ?d r i)"
    if r: "r < ?m" and i: "i < num_columns schema" and str: "type (column schema i) = STRING"
      and live: "\<not> slot_null schema ?d r i" for r i
  proof -
    from desc [OF that] obtain off where
      off: "off + unat (slice_size (load_slice (cell_bytes schema (?src r) 0 i))) \<le> length ?ind"
      and s: "slot_slice schema ?d r i
          = \<lparr>slice_data = of_nat off, slice_size = slice_size (load_slice (cell_bytes schema (?src r) 0 i))\<rparr>"
      by blast
    have "off < 2 ^ 64" using off small by simp
    then have "unat (of_nat off :: addr) = off" by (simp add: unat_of_nat)
    with off small show ?thesis by (simp add: bad_slice_def s)
  qed
  text \<open>So the two loops run to their ends.\<close>
  obtain res d' where run: "fixup_columns schema ts a ?ind 0 ?d = (res, d')"
    by (cases "fixup_columns schema ts a ?ind 0 ?d") auto
  note spec = fixup_columns_spec [OF rs len run]
  have res: "res = None"
  proof (cases res)
    case (Some st)
    with spec obtain i' r' where "i' < num_columns schema" "type (column schema i') = STRING" "r' < ?m"
      "\<not> slot_null schema ?d r' i'" "bad_slice ?ind (slot_slice schema ?d r' i')"
      by auto
    with good show ?thesis by blast
  qed simp
  from spec res have l': "length d' = length ?d"
    and frame: "\<And>q. q < length ?d \<Longrightarrow>
            (\<And>i' r. i' < num_columns schema \<Longrightarrow> type (column schema i') = STRING \<Longrightarrow> r < ?m
                \<Longrightarrow> \<not> slot_null schema ?d r i' \<Longrightarrow> \<not> in_cell schema r i' q)
            \<Longrightarrow> d' ! q = ?d ! q"
    and cells: "\<And>i' r. i' < num_columns schema \<Longrightarrow> type (column schema i') = STRING \<Longrightarrow> r < ?m
                \<Longrightarrow> \<not> slot_null schema ?d r i' \<Longrightarrow>
               read_bytes d' (cell_pos schema r i') 16
                   = store_slice (materialize a (slot_slice schema ?d r i'))"
    by simp_all
  have "push_rows ?rs (?m * ?rs) (0 * ?rs) ptrs = ptrs @ map (\<lambda>r. r * ?rs) [0..<?m]"
    by (rule push_rows_spec [OF rs]) simp
  then have out: "ExtractRowsFromRowBlockPB ts schema a pb ptrs
      = Inr (Status_OK, pb\<lparr>rows := d'\<rparr>, ptrs @ map (\<lambda>r. r * ?rs) [0..<?m])"
    using run res l' len by (simp add: extract_unfold [OF rs len])
  text \<open>The values of the decoded rows.\<close>
  have val: "same_value schema (?mem r) (?src r) (place a ?ind m0) d' (r * ?rs) i"
    if r: "r < ?m" and i: "i < num_columns schema" for r i
  proof -
    have "slot_null schema d' r i = slot_null schema ?d r i"
    proof (rule slot_null_agree [OF i r len])
      fix q assume "q < length ?d" and "\<And>r' i'. i' < num_columns schema \<Longrightarrow> \<not> in_cell schema r' i' q"
      then show "d' ! q = ?d ! q" by (intro frame) simp_all
    qed
    with null [OF r i]
    have n': "(is_nullable (column schema i) \<and> is_null schema d' (r * ?rs) i)
        = (is_nullable (column schema i) \<and> is_null schema (?src r) 0 i)"
      by (simp add: slot_null_def)
    show ?thesis
    proof (cases "is_nullable (column schema i) \<and> is_null schema (?src r) 0 i")
      case True
      with n' show ?thesis by (simp add: same_value_def)
    next
      case False
      with null [OF r i] have live: "\<not> slot_null schema ?d r i" by simp
      from False n' have nn: "is_nullable (column schema i) \<longrightarrow> \<not> is_null schema d' (r * ?rs) i"
        by blast
      show ?thesis
      proof (cases "type (column schema i) = STRING")
        case str: True
        let ?s = "load_slice (cell_bytes schema (?src r) 0 i)"
        from desc [OF r i str live] obtain off where
          off: "off + unat (slice_size ?s) \<le> length ?ind"
          and s: "slot_slice schema ?d r i = \<lparr>slice_data = of_nat off, slice_size = slice_size ?s\<rparr>"
          and pay: "read_bytes ?ind off (unat (slice_size ?s)) = slice_bytes (?mem r) ?s"
          by blast
        have "cell_bytes schema d' (r * ?rs) i = read_bytes d' (cell_pos schema r i) 16"
          by (simp add: cell_bytes_def cell_pos_def str)
        also have "\<dots> = store_slice (materialize a (slot_slice schema ?d r i))"
          by (rule cells [OF i str r live])
        finally have "load_slice (cell_bytes schema d' (r * ?rs) i)
            = \<lparr>slice_data = a + of_nat off, slice_size = slice_size ?s\<rparr>"
          by (simp add: s materialize_def)
        then have "slice_bytes (place a ?ind m0) (load_slice (cell_bytes schema d' (r * ?rs) i))
            = read_mem (place a ?ind m0) (a + of_nat off) (unat (slice_size ?s))"
          by (simp add: slice_bytes_def)
        also have "\<dots> = read_bytes ?ind off (unat (slice_size ?s))"
          by (rule read_mem_place [OF off small])
        also have "\<dots> = slice_bytes (?mem r) ?s" by (rule pay)
        finally show ?thesis using False nn str by (simp add: same_value_def)
      next
        case other: False
        have fit: "cell_pos schema r i + type_size (type (column schema i)) \<le> length ?d"
          by (rule cell_in_buffer [OF i r len])
        have "read_bytes d' (cell_pos schema r i) (type_size (type (column schema i)))
            = read_bytes ?d (cell_pos schema r i) (type_size (type (column schema i)))"
        proof (rule cell_agree [OF fit l' le_refl])
          fix q assume q: "q < length ?d" "in_cell schema r i q"
          show "d' ! q = ?d ! q"
          proof (rule frame [OF q(1)])
            fix i' r' assume "i' < num_columns schema" "type (column schema i') = STRING"
            then show "\<not> in_cell schema r' i' q"
              using in_cell_unique [OF i _ q(2), of i' r'] other by auto
          qed
        qed
        then have "cell_bytes schema d' (r * ?rs) i = cell_bytes schema ?d (r * ?rs) i"
          by (simp add: cell_bytes_def cell_pos_def)
        moreover from enc [OF r i] False other
        have "cell_bytes schema ?d (r * ?rs) i = cell_bytes schema (?src r) 0 i"
          by (simp add: encoded_def)
        ultimately show ?thesis using False nn other by (simp add: same_value_def)
      qed
    qed
  qed
  from out val show ?thesis by blast
qed


section \<open>The row-block claims\<close>

text \<open>
  C1. Let rows \<open>r\<^sub>0 .. r\<^sub>n\<close> (at least one) be appended with \<^verbatim>\<open>AddRowToRowBlockPB\<close> to an
  empty block, every call returning, and let the indirect buffer's size fit a
  \<^verbatim>\<open>size_t\<close>. Then \<^verbatim>\<open>ExtractRowsFromRowBlockPB\<close> on the block returns OK and appends to the
  vector of rows one pointer per row, in the order of the appends (row \<open>r\<close> at byte
  \<open>r * row_size\<close>); it leaves the indirect buffer as it is; and every column of every
  decoded row has the value it had in the source row: null where the source was null,
  else the same payload bytes for a string (read through the rewritten pointer, with
  the indirect buffer at its address) and the same slot bytes for any other type.
\<close>

theorem row_block_round_trip:
  assumes "srcs \<noteq> []"
    and "add_rows schema srcs empty_block = Inr pb"
    and "length (indirect_data pb) < 2 ^ 64"
  shows "\<exists>pb'. ExtractRowsFromRowBlockPB ts schema a pb ptrs
        = Inr (Status_OK, pb', ptrs @ map (\<lambda>r. r * row_size schema) [0..<length srcs])
    \<and> indirect_data pb' = indirect_data pb
    \<and> (\<forall>r < length srcs. \<forall>i < num_columns schema.
          same_value schema (fst (srcs ! r))
            (read_mem (fst (srcs ! r)) (snd (srcs ! r)) (row_size schema))
            (place a (indirect_data pb') m0) (rows pb') (r * row_size schema) i)"
proof -
  have rs: "0 < row_size schema" by (rule add_rows_row_size [OF assms(1,2)])
  have "block_holds schema ([] @ srcs) pb"
    by (rule add_rows_holds [OF rs block_holds_empty assms(2)])
  then have holds: "block_holds schema srcs pb" by simp
  from extract_of_block [OF rs holds assms(3), of ts a ptrs m0]
  obtain d' where "ExtractRowsFromRowBlockPB ts schema a pb ptrs
        = Inr (Status_OK, pb\<lparr>rows := d'\<rparr>, ptrs @ map (\<lambda>r. r * row_size schema) [0..<length srcs])"
    and "\<forall>r < length srcs. \<forall>i < num_columns schema.
          same_value schema (fst (srcs ! r))
            (read_mem (fst (srcs ! r)) (snd (srcs ! r)) (row_size schema))
            (place a (indirect_data pb) m0) d' (r * row_size schema) i"
    by blast
  then have "ExtractRowsFromRowBlockPB ts schema a pb ptrs
        = Inr (Status_OK, pb\<lparr>rows := d'\<rparr>, ptrs @ map (\<lambda>r. r * row_size schema) [0..<length srcs])
    \<and> indirect_data (pb\<lparr>rows := d'\<rparr>) = indirect_data pb
    \<and> (\<forall>r < length srcs. \<forall>i < num_columns schema.
          same_value schema (fst (srcs ! r))
            (read_mem (fst (srcs ! r)) (snd (srcs ! r)) (row_size schema))
            (place a (indirect_data (pb\<lparr>rows := d'\<rparr>)) m0) (rows (pb\<lparr>rows := d'\<rparr>))
            (r * row_size schema) i)"
    by simp
  then show ?thesis by (rule exI)
qed

text \<open>
  C7. When \<^verbatim>\<open>AddRowToRowBlockPB\<close> appends a row in which a nullable column is marked
  null, the call returns and the whole slot of that column in the appended copy (all
  \<open>type_size\<close> bytes of it, from the copy's start plus the column's offset) is zero,
  whatever the source row had there.
\<close>

theorem null_cell_zeroed:
  assumes "i < num_columns (row_schema row)"
    and "is_nullable (column (row_schema row) i)"
    and "is_null (row_schema row) (read_mem mem (row_data_ptr row) (row_size (row_schema row))) 0 i"
  shows "\<exists>pb'. AddRowToRowBlockPB mem row pb = Inr pb'
    \<and> cell_bytes (row_schema row) (rows pb') (length (rows pb)) i
        = replicate (type_size (type (column (row_schema row) i))) 0"
proof -
  have "0 < num_columns (row_schema row)" using assms(1) by simp
  then have rs: "0 < row_size (row_schema row)" by (rule row_size_pos)
  from AddRowToRowBlockPB_spec [OF rs, of mem pb] obtain pb' where
    run: "AddRowToRowBlockPB mem row pb = Inr pb'"
    and enc: "\<forall>i < num_columns (row_schema row).
          encoded mem (row_schema row) (read_mem mem (row_data_ptr row) (row_size (row_schema row))) i
            (rows pb') (length (rows pb)) (indirect_data pb')"
    by blast
  from enc assms have "cell_bytes (row_schema row) (rows pb') (length (rows pb)) i
        = replicate (type_size (type (column (row_schema row) i))) 0"
    by (simp add: encoded_def)
  with run show ?thesis by blast
qed

text \<open>
  C8. \<^verbatim>\<open>AddRowToRowBlockPB\<close> takes the address of the copy with
  \<^verbatim>\<open>data_buf->at(appended_offset)\<close>. A row of the schema without columns has no bytes:
  nothing is appended, \<open>appended_offset\<close> is the size of the buffer, and \<^verbatim>\<open>at\<close> throws
  \<^verbatim>\<open>std::out_of_range\<close>, for every block and every row pointer.
\<close>

theorem add_row_empty_schema_out_of_range:
  "AddRowToRowBlockPB mem \<lparr>row_schema = empty_schema, row_data_ptr = p\<rparr> pb = Inl out_of_range"
  by (simp add: AddRowToRowBlockPB_def Let_def row_size_def null_bitmap_size_def empty_schema_def)

text \<open>
  For a schema with a column the call returns, keeps every byte that the row buffer
  had, adds one slot to it, and keeps the indirect buffer as a prefix of the new one.
\<close>

lemma add_row_extends:
  assumes "columns (row_schema row) \<noteq> []"
  shows "\<exists>pb'. AddRowToRowBlockPB mem row pb = Inr pb'
    \<and> take (length (rows pb)) (rows pb') = rows pb
    \<and> length (rows pb') = length (rows pb) + row_size (row_schema row)
    \<and> take (length (indirect_data pb)) (indirect_data pb') = indirect_data pb"
proof -
  have rs: "0 < row_size (row_schema row)"
    using assms row_size_zero_iff [of "row_schema row"] by simp
  from AddRowToRowBlockPB_spec [OF rs, of mem pb] obtain pb' where
    run: "AddRowToRowBlockPB mem row pb = Inr pb'"
    and l: "length (rows pb') = length (rows pb) + row_size (row_schema row)"
    and keep: "\<forall>q < length (rows pb). rows pb' ! q = rows pb ! q"
    and ind: "\<exists>suf. indirect_data pb' = indirect_data pb @ suf"
    by blast
  have "take (length (rows pb)) (rows pb') = rows pb"
    by (rule nth_equalityI) (use l keep in simp_all)
  moreover from ind have "take (length (indirect_data pb)) (indirect_data pb') = indirect_data pb"
    by auto
  ultimately show ?thesis using run l by blast
qed

section \<open>The claims on the inputs of the tests\<close>

lemmas eval_simps = ExtractRowsFromRowBlockPB_def AddRowToRowBlockPB_def
  fixup_columns.simps fixup_rows.simps push_rows.simps encode_columns.simps encode_column_def
  row_size_def null_bitmap_size_def column_offset_def num_columns_def column_def
  is_null_def null_bit_index_def cell_pos_def slot_slice_def slot_null_def bad_slice_def cell_bytes_def
  load_slice_def load64_def read_bytes_def write_bytes_def store_slice_def store64_def
  slice_bytes_def place_def read_mem_numeral le_bytes_numeral AddWithOverflowCheck_def Let_def
  bad_slice_message_def size_mismatch_message_def c_str_def fmt_signed_def dec.simps
  Status_make_def Status_OK_def
  string_schema_def empty_schema_def test_schema_def empty_block_def overflow_block_def
  test_memory_def test_block_def test_rows_def

text \<open>The first call of \<^verbatim>\<open>TestInvalidRowBlock\<close>: a buffer of one byte.\<close>

lemma extract_one_byte:
  "ExtractRowsFromRowBlockPB name string_schema 0x1000 \<lparr>rows = [120], indirect_data = []\<rparr> []
     = Inr (\<lparr>code = kCorruption,
             message = ''Row block has 1 bytes of data which is not a multiple of row size 16'',
             posix_code = - 1\<rparr>,
            \<lparr>rows = [120], indirect_data = []\<rparr>, [])"
  by (simp add: eval_simps)

text \<open>
  The second row of \<open>overflow_block\<close> is rejected although its wrapped sum is zero, after
  the descriptor of the first row has been rewritten.
\<close>

lemma extract_overflow_block:
  "ExtractRowsFromRowBlockPB name string_schema 0x1000 overflow_block []
     = Inr (\<lparr>code = kCorruption,
             message = ''Row #1 contained bad indirect slice for column col1: (-1, 1)'',
             posix_code = - 1\<rparr>,
            \<lparr>rows = [0, 16, 0, 0, 0, 0, 0, 0, 0, 0, 0, 0, 0, 0, 0, 0,
                     255, 255, 255, 255, 255, 255, 255, 255, 1, 0, 0, 0, 0, 0, 0, 0],
              indirect_data = [0]\<rparr>,
            [])"
  by (simp add: eval_simps)

lemma add_row_test_memory:
  "AddRowToRowBlockPB test_memory \<lparr>row_schema = test_schema, row_data_ptr = 0x100\<rparr> empty_block
     = Inr test_block"
  by (simp add: eval_simps)

text \<open>Decoding \<open>test_block\<close> with the indirect buffer at address \<open>0x1000\<close>.\<close>

lemma extract_test_block:
  "ExtractRowsFromRowBlockPB name test_schema 0x1000 test_block []
     = Inr (\<lparr>code = kOk, message = [], posix_code = - 1\<rparr>,
            \<lparr>rows = [1,
                     0, 16, 0, 0, 0, 0, 0, 0, 2, 0, 0, 0, 0, 0, 0, 0,
                     2, 16, 0, 0, 0, 0, 0, 0, 3, 0, 0, 0, 0, 0, 0, 0,
                     0, 0, 0, 0],
              indirect_data = [104, 105, 97, 98, 99]\<rparr>,
            [0])"
  by (simp add: eval_simps)

theorem row_block_round_trip_witness:
  "test_rows \<noteq> []
   \<and> add_rows test_schema test_rows empty_block = Inr test_block
   \<and> length (indirect_data test_block) < 2 ^ 64
   \<and> (\<exists>pb'. ExtractRowsFromRowBlockPB name test_schema 0x1000 test_block []
        = Inr (Status_OK, pb', [] @ map (\<lambda>r. r * row_size test_schema) [0..<length test_rows])
      \<and> indirect_data pb' = indirect_data test_block
      \<and> (\<forall>r < length test_rows. \<forall>i < num_columns test_schema.
            same_value test_schema (fst (test_rows ! r))
              (read_mem (fst (test_rows ! r)) (snd (test_rows ! r)) (row_size test_schema))
              (place 0x1000 (indirect_data pb') test_memory) (rows pb') (r * row_size test_schema) i))"
proof -
  have h1: "test_rows \<noteq> []" by (simp add: test_rows_def)
  have h2: "add_rows test_schema test_rows empty_block = Inr test_block"
    by (simp add: test_rows_def add_row_test_memory)
  have h3: "length (indirect_data test_block) < 2 ^ 64" by (simp add: test_block_def)
  from row_block_round_trip [OF h1 h2 h3, of name "0x1000" "[]" test_memory] h1 h2 h3
  show ?thesis by blast
qed

theorem extract_bad_indirect_slice_witness:
  "row_size string_schema dvd length (rows overflow_block)
   \<and> 1 < length (rows overflow_block) div row_size string_schema
   \<and> 0 < num_columns string_schema
   \<and> type (column string_schema 0) = STRING
   \<and> \<not> slot_null string_schema (rows overflow_block) 1 0
   \<and> bad_slice (indirect_data overflow_block) (slot_slice string_schema (rows overflow_block) 1 0)
   \<and> (\<exists>r' i' d'. r' < length (rows overflow_block) div row_size string_schema
        \<and> i' < num_columns string_schema
        \<and> type (column string_schema i') = STRING \<and> \<not> slot_null string_schema (rows overflow_block) r' i'
        \<and> bad_slice (indirect_data overflow_block) (slot_slice string_schema (rows overflow_block) r' i')
        \<and> ExtractRowsFromRowBlockPB name string_schema 0x1000 overflow_block []
            = Inr (\<lparr>code = kCorruption,
                    message =
                      ''Row #'' @ fmt_signed 32 r' @ '' contained bad indirect slice for column ''
                        @ c_str (name (column string_schema i'))
                        @ '': (''
                        @ fmt_signed 64 (unat (slice_data (slot_slice string_schema (rows overflow_block) r' i')))
                        @ '', ''
                        @ fmt_signed 64 (unat (slice_size (slot_slice string_schema (rows overflow_block) r' i')))
                        @ '')'',
                    posix_code = -1\<rparr>,
                   overflow_block\<lparr>rows := d'\<rparr>, []))
   \<and> ExtractRowsFromRowBlockPB name string_schema 0x1000 overflow_block []
       = Inr (\<lparr>code = kCorruption,
               message = ''Row #1 contained bad indirect slice for column col1: (-1, 1)'',
               posix_code = - 1\<rparr>,
              \<lparr>rows = [0, 16, 0, 0, 0, 0, 0, 0, 0, 0, 0, 0, 0, 0, 0, 0,
                       255, 255, 255, 255, 255, 255, 255, 255, 1, 0, 0, 0, 0, 0, 0, 0],
                indirect_data = [0]\<rparr>,
              [])"
proof -
  have rsz: "row_size string_schema = 16" by (simp add: eval_simps)
  have len: "length (rows overflow_block) = 32" by (simp add: overflow_block_def)
  have h1: "row_size string_schema dvd length (rows overflow_block)" by (simp add: rsz len)
  have h2: "1 < length (rows overflow_block) div row_size string_schema" by (simp add: rsz len)
  have h3: "0 < num_columns string_schema" by (simp add: eval_simps)
  have h4: "type (column string_schema 0) = STRING" by (simp add: eval_simps)
  have h5: "\<not> slot_null string_schema (rows overflow_block) 1 0" by (simp add: eval_simps)
  have h6: "bad_slice (indirect_data overflow_block) (slot_slice string_schema (rows overflow_block) 1 0)"
    by (simp add: eval_simps)
  from extract_bad_indirect_slice [OF h1 h2 h3 h4 h5 h6, of name "0x1000" "[]"]
    h1 h2 h3 h4 h5 h6 extract_overflow_block
  show ?thesis by blast
qed

theorem extract_error_keeps_rows_witness:
  "ExtractRowsFromRowBlockPB name string_schema 0x1000 overflow_block []
     = Inr (Status_make kCorruption ''Row #1 contained bad indirect slice for column col1: (-1, 1)'' [] (-1),
            overflow_block\<lparr>rows := [0, 16, 0, 0, 0, 0, 0, 0, 0, 0, 0, 0, 0, 0, 0, 0,
                     255, 255, 255, 255, 255, 255, 255, 255, 1, 0, 0, 0, 0, 0, 0, 0]\<rparr>,
            [])
   \<and> \<not> ok (Status_make kCorruption ''Row #1 contained bad indirect slice for column col1: (-1, 1)'' [] (-1))
   \<and> ([] :: nat list) = []
   \<and> indirect_data (overflow_block\<lparr>rows := [0, 16, 0, 0, 0, 0, 0, 0, 0, 0, 0, 0, 0, 0, 0, 0,
                     255, 255, 255, 255, 255, 255, 255, 255, 1, 0, 0, 0, 0, 0, 0, 0]\<rparr>)
       = indirect_data overflow_block
   \<and> length (rows (overflow_block\<lparr>rows := [0, 16, 0, 0, 0, 0, 0, 0, 0, 0, 0, 0, 0, 0, 0, 0,
                     255, 255, 255, 255, 255, 255, 255, 255, 1, 0, 0, 0, 0, 0, 0, 0]\<rparr>))
       = length (rows overflow_block)
   \<and> rows (overflow_block\<lparr>rows := [0, 16, 0, 0, 0, 0, 0, 0, 0, 0, 0, 0, 0, 0, 0, 0,
                     255, 255, 255, 255, 255, 255, 255, 255, 1, 0, 0, 0, 0, 0, 0, 0]\<rparr>)
       \<noteq> rows overflow_block"
proof -
  let ?st = "Status_make kCorruption ''Row #1 contained bad indirect slice for column col1: (-1, 1)'' [] (-1)"
  let ?pb = "overflow_block\<lparr>rows := [0, 16, 0, 0, 0, 0, 0, 0, 0, 0, 0, 0, 0, 0, 0, 0,
                     255, 255, 255, 255, 255, 255, 255, 255, 1, 0, 0, 0, 0, 0, 0, 0]\<rparr>"
  have h1: "ExtractRowsFromRowBlockPB name string_schema 0x1000 overflow_block [] = Inr (?st, ?pb, [])"
    by (simp add: extract_overflow_block) (simp add: Status_make_def overflow_block_def)
  have h2: "\<not> ok ?st" by simp
  have ne: "rows ?pb \<noteq> rows overflow_block" by (simp add: overflow_block_def)
  from extract_error_keeps_rows [OF h1 h2] h1 h2 ne show ?thesis by blast
qed

theorem null_cell_zeroed_witness:
  "2 < num_columns (row_schema \<lparr>row_schema = test_schema, row_data_ptr = 0x100\<rparr>)
   \<and> is_nullable (column (row_schema \<lparr>row_schema = test_schema, row_data_ptr = 0x100\<rparr>) 2)
   \<and> is_null test_schema (read_mem test_memory 0x100 (row_size test_schema)) 0 2
   \<and> cell_bytes test_schema (read_mem test_memory 0x100 (row_size test_schema)) 0 2 = [7, 7, 7, 7]
   \<and> (\<exists>pb'. AddRowToRowBlockPB test_memory \<lparr>row_schema = test_schema, row_data_ptr = 0x100\<rparr> empty_block
          = Inr pb'
        \<and> cell_bytes test_schema (rows pb') (length (rows empty_block)) 2
            = replicate (type_size (type (column test_schema 2))) 0)"
proof -
  let ?row = "\<lparr>row_schema = test_schema, row_data_ptr = 0x100\<rparr>"
  have h1: "2 < num_columns (row_schema ?row)" by (simp add: eval_simps)
  have h2: "is_nullable (column (row_schema ?row) 2)" by (simp add: eval_simps)
  have h3: "is_null (row_schema ?row) (read_mem test_memory (row_data_ptr ?row) (row_size (row_schema ?row))) 0 2"
    by (simp add: eval_simps)
  have stale: "cell_bytes test_schema (read_mem test_memory 0x100 (row_size test_schema)) 0 2 = [7, 7, 7, 7]"
    by (simp add: eval_simps)
  from null_cell_zeroed [OF h1 h2 h3, of empty_block] h1 h2 h3 stale show ?thesis by simp
qed


end
